theory Spec2Isabelle
  imports Main
begin

section \<open>Strings and numbers of the Go standard library\<close>

text \<open>
  A Go string is a sequence of bytes; it is modelled as \<^typ>\<open>string\<close>. The functions
  below are the library calls the package manager makes: \<open>strings.Split\<close> with the
  separator \<open>"."\<close>, \<open>strings.HasPrefix\<close>, \<open>strings.TrimPrefix\<close> and
  \<open>strconv.Atoi\<close>.
\<close>

text \<open>\<open>strings.Split(s, ".")\<close>: the fields between the dots, always at least one.\<close>

fun Split_dot :: "string \<Rightarrow> string list" where
  "Split_dot [] = [[]]"
| "Split_dot (c # cs) =
     (if c = CHR ''.'' then [] # Split_dot cs
      else (c # hd (Split_dot cs)) # tl (Split_dot cs))"

definition HasPrefix :: "string \<Rightarrow> string \<Rightarrow> bool" where
  "HasPrefix s p = (take (length p) s = p)"

definition TrimPrefix :: "string \<Rightarrow> string \<Rightarrow> string" where
  "TrimPrefix s p = (if HasPrefix s p then drop (length p) s else s)"

definition is_digit :: "char \<Rightarrow> bool" where
  "is_digit c = (48 \<le> (of_char c :: int) \<and> (of_char c :: int) \<le> 57)"

definition digit_val :: "char \<Rightarrow> int" where
  "digit_val c = (of_char c :: int) - 48"

definition digits_val :: "string \<Rightarrow> int" where
  "digits_val s = foldl (\<lambda>n c. 10 * n + digit_val c) 0 s"

text \<open>
  \<open>strconv.Atoi\<close> on a 64-bit platform (the only platforms the tool is built for):
  an optional sign, then at least one decimal digit and nothing else; the value has to
  fit a signed 64-bit \<open>int\<close>. Every failure is \<open>None\<close>: the callers only test
  \<open>err == nil\<close>.
\<close>

definition Atoi :: "string \<Rightarrow> int option" where
  "Atoi s =
     (let neg = (s \<noteq> [] \<and> hd s = CHR ''-'');
          body = (if s \<noteq> [] \<and> (hd s = CHR ''-'' \<or> hd s = CHR ''+'') then tl s else s)
      in if body = [] \<or> \<not> list_all is_digit body then None
         else if neg then
           (if digits_val body > 2 ^ 63 then None else Some (- digits_val body))
         else
           (if digits_val body \<ge> 2 ^ 63 then None else Some (digits_val body)))"

section \<open>Version comparison (internal/pkg/manager.go)\<close>

text \<open>
  \<open>compareVersions\<close> is at lines 235 to 266 of the file, \<open>versionSatisfies\<close> at
  lines 211 to 232.
\<close>

text \<open>The number a component stands for: what \<open>Atoi\<close> returns, and 0 when it fails.\<close>

definition part_num :: "string \<Rightarrow> int" where
  "part_num s = (case Atoi s of Some v \<Rightarrow> v | None \<Rightarrow> 0)"

text \<open>
  The loop of \<open>compareVersions\<close>, from index \<open>i\<close> on: beyond the end of a list the
  number is 0, the first difference decides.
\<close>

function cmp_loop :: "string list \<Rightarrow> string list \<Rightarrow> nat \<Rightarrow> nat \<Rightarrow> int" where
  "cmp_loop partsA partsB maxLen i =
     (if i < maxLen then
        (let numA = (if i < length partsA then part_num (partsA ! i) else 0);
             numB = (if i < length partsB then part_num (partsB ! i) else 0)
         in if numA < numB then - 1
            else if numA > numB then 1
            else cmp_loop partsA partsB maxLen (i + 1))
      else 0)"
  by pat_completeness auto
termination
  by (relation "measure (\<lambda>(partsA, partsB, maxLen, i). maxLen - i)") auto

declare cmp_loop.simps [simp del]

definition compareVersions :: "string \<Rightarrow> string \<Rightarrow> int" where
  "compareVersions a b =
     (let partsA = Split_dot a;
          partsB = Split_dot b;
          maxLen = (if length partsB > length partsA then length partsB else length partsA)
      in cmp_loop partsA partsB maxLen 0)"

definition versionSatisfies :: "string \<Rightarrow> string \<Rightarrow> string \<Rightarrow> bool" where
  "versionSatisfies version constraint required =
     (if constraint = [] \<or> required = [] then True
      else let cmp = compareVersions version required
           in if constraint = ''>='' then cmp \<ge> 0
              else if constraint = ''>'' then cmp > 0
              else if constraint = ''<='' then cmp \<le> 0
              else if constraint = ''<'' then cmp < 0
              else if constraint = ''='' \<or> constraint = ''=='' then cmp = 0
              else True)"




text \<open>The number at position \<open>i\<close> of a version, 0 beyond its last component.\<close>

definition comp_at :: "string list \<Rightarrow> nat \<Rightarrow> int" where
  "comp_at parts i = (if i < length parts then part_num (parts ! i) else 0)"

definition vmax :: "string list \<Rightarrow> string list \<Rightarrow> nat" where
  "vmax pa pb = (if length pb > length pa then length pb else length pa)"

section \<open>Data model (types of package pkg)\<close>

text \<open>
  The types are those of the file of types that the manager is written against, the one
  that declares \<open>VersionInfo\<close>: an installed package has a slot and a pin.
\<close>

record Package =
  Name :: string
  Version :: string
  Revision :: int
  PHPVersion :: string
  Description :: string
  Platform :: string
  Depends :: "string list"
  Conflicts :: "string list"
  Provides :: "string list"
  InstalledSize :: int
  Maintainer :: string
  URL :: string
  SHA256 :: string
  Size :: int

text \<open>
  \<open>InstalledPackage\<close> embeds \<open>Package\<close>. \<open>InstalledAt\<close> is a time stamp; the
  installer never sets it, so it keeps the zero value.
\<close>

record InstalledPackage = Package +
  InstalledAt :: nat
  InstalledFiles :: "string list"
  InstallSlot :: string
  Pinned :: bool

record VersionInfo =
  MinorVersion :: string
  PatchVersion :: string
  IsPinned :: bool
  PackageType :: string

record Dependency =
  DepName :: string
  Constraint :: string
  DepVersion :: string

section \<open>Package names (\<open>ParsePackageName\<close>, lines 100 to 142 of the same file)\<close>

text \<open>
  The two regular expressions are anchored, and no character that may end one of their
  parts may start the next one, so each has at most one way to match: a maximal run of
  digits (\<open>\d+\<close>), a literal character, and at the end a nonempty rest without a line
  feed (\<open>.+\<close> does not match \<open>\n\<close>).
\<close>

definition digits1 :: "string \<Rightarrow> (string \<times> string) option" where
  "digits1 s =
     (if takeWhile is_digit s = [] then None
      else Some (takeWhile is_digit s, dropWhile is_digit s))"

definition lit :: "char \<Rightarrow> string \<Rightarrow> string option" where
  "lit c s = (case s of [] \<Rightarrow> None | x # r \<Rightarrow> if x = c then Some r else None)"

definition any1 :: "string \<Rightarrow> string option" where
  "any1 s = (if s \<noteq> [] \<and> CHR 0x0A \<notin> set s then Some s else None)"

text \<open>\<open>^php(\d+)\.(\d+)\.(\d+)-(.+)$\<close>: the four groups of a match.\<close>

definition patchVersionRegex :: "string \<Rightarrow> (string \<times> string \<times> string \<times> string) option" where
  "patchVersionRegex name =
     (if \<not> HasPrefix name ''php'' then None
      else case digits1 (drop 3 name) of None \<Rightarrow> None | Some (m1, r1) \<Rightarrow>
           case lit CHR ''.'' r1 of None \<Rightarrow> None | Some r2 \<Rightarrow>
           case digits1 r2 of None \<Rightarrow> None | Some (m2, r3) \<Rightarrow>
           case lit CHR ''.'' r3 of None \<Rightarrow> None | Some r4 \<Rightarrow>
           case digits1 r4 of None \<Rightarrow> None | Some (m3, r5) \<Rightarrow>
           case lit CHR ''-'' r5 of None \<Rightarrow> None | Some r6 \<Rightarrow>
           case any1 r6 of None \<Rightarrow> None | Some m4 \<Rightarrow> Some (m1, m2, m3, m4))"

text \<open>\<open>^php(\d+)\.(\d+)-(.+)$\<close>: the three groups of a match.\<close>

definition minorVersionRegex :: "string \<Rightarrow> (string \<times> string \<times> string) option" where
  "minorVersionRegex name =
     (if \<not> HasPrefix name ''php'' then None
      else case digits1 (drop 3 name) of None \<Rightarrow> None | Some (m1, r1) \<Rightarrow>
           case lit CHR ''.'' r1 of None \<Rightarrow> None | Some r2 \<Rightarrow>
           case digits1 r2 of None \<Rightarrow> None | Some (m2, r3) \<Rightarrow>
           case lit CHR ''-'' r3 of None \<Rightarrow> None | Some r4 \<Rightarrow>
           case any1 r4 of None \<Rightarrow> None | Some m3 \<Rightarrow> Some (m1, m2, m3))"

definition ParsePackageName :: "string \<Rightarrow> VersionInfo option" where
  "ParsePackageName name =
     (case patchVersionRegex name of
        Some (m1, m2, m3, m4) \<Rightarrow>
          Some \<lparr>MinorVersion = m1 @ ''.'' @ m2,
                PatchVersion = m1 @ ''.'' @ m2 @ ''.'' @ m3,
                IsPinned = True,
                PackageType = m4\<rparr>
      | None \<Rightarrow>
          (case minorVersionRegex name of
             Some (m1, m2, m3) \<Rightarrow>
               Some \<lparr>MinorVersion = m1 @ ''.'' @ m2,
                     PatchVersion = [],
                     IsPinned = False,
                     PackageType = m3\<rparr>
           | None \<Rightarrow> None))"

definition GetInstallSlot :: "VersionInfo \<Rightarrow> string" where
  "GetInstallSlot v = (if IsPinned v then PatchVersion v else MinorVersion v)"

definition GetCanonicalName :: "VersionInfo \<Rightarrow> string" where
  "GetCanonicalName v = ''php'' @ MinorVersion v @ ''-'' @ PackageType v"

section \<open>Dependency strings (\<open>ParseDependency\<close>, manager.go lines 142 to 156)\<close>

text \<open>
  \<open>strings.TrimSpace\<close> removes the leading and the trailing white space of Unicode.
  On the bytes of a string these are the UTF-8 encodings below: the six ASCII ones,
  U+0085, U+00A0, U+1680, U+2000 to U+200A, U+2028, U+2029, U+202F, U+205F and U+3000.
  No encoding is a prefix or a suffix of another one.
\<close>

definition space_seqs :: "string list" where
  "space_seqs =
     [[CHR 0x09],
      [CHR 0x0A],
      [CHR 0x0B],
      [CHR 0x0C],
      [CHR 0x0D],
      [CHR 0x20],
      [CHR 0xC2, CHR 0x85],
      [CHR 0xC2, CHR 0xA0],
      [CHR 0xE1, CHR 0x9A, CHR 0x80],
      [CHR 0xE2, CHR 0x80, CHR 0x80],
      [CHR 0xE2, CHR 0x80, CHR 0x81],
      [CHR 0xE2, CHR 0x80, CHR 0x82],
      [CHR 0xE2, CHR 0x80, CHR 0x83],
      [CHR 0xE2, CHR 0x80, CHR 0x84],
      [CHR 0xE2, CHR 0x80, CHR 0x85],
      [CHR 0xE2, CHR 0x80, CHR 0x86],
      [CHR 0xE2, CHR 0x80, CHR 0x87],
      [CHR 0xE2, CHR 0x80, CHR 0x88],
      [CHR 0xE2, CHR 0x80, CHR 0x89],
      [CHR 0xE2, CHR 0x80, CHR 0x8A],
      [CHR 0xE2, CHR 0x80, CHR 0xA8],
      [CHR 0xE2, CHR 0x80, CHR 0xA9],
      [CHR 0xE2, CHR 0x80, CHR 0xAF],
      [CHR 0xE2, CHR 0x81, CHR 0x9F],
      [CHR 0xE3, CHR 0x80, CHR 0x80]]"

function strip_seqs :: "string list \<Rightarrow> string \<Rightarrow> string" where
  "strip_seqs ws s =
     (case find (\<lambda>w. w \<noteq> [] \<and> HasPrefix s w) ws of
        None \<Rightarrow> s
      | Some w \<Rightarrow> strip_seqs ws (drop (length w) s))"
  by pat_completeness auto
termination
proof (relation "measure (\<lambda>(ws, s). length s)")
  show "wf (measure (\<lambda>(ws, s). length s))" by simp
next
  fix ws :: "string list" and s w :: string
  assume "find (\<lambda>w. w \<noteq> [] \<and> HasPrefix s w) ws = Some w"
  then have "w \<noteq> []" "HasPrefix s w" by (auto simp: find_Some_iff)
  then have "s \<noteq> []" by (auto simp: HasPrefix_def)
  with \<open>w \<noteq> []\<close> show "((ws, drop (length w) s), (ws, s)) \<in> measure (\<lambda>(ws, s). length s)"
    by simp
qed

declare strip_seqs.simps [simp del]

definition TrimSpace :: "string \<Rightarrow> string" where
  "TrimSpace s = rev (strip_seqs (map rev space_seqs) (rev (strip_seqs space_seqs s)))"

text \<open>
  The classes of \<open>^([a-zA-Z0-9._-]+)\s*\(([<>=]+)\s*([0-9.]+)\)$\<close>. \<open>\s\<close> is
  tab, line feed, form feed, carriage return and space.
\<close>

definition is_alpha :: "char \<Rightarrow> bool" where
  "is_alpha c = ((97 \<le> (of_char c :: int) \<and> (of_char c :: int) \<le> 122)
               \<or> (65 \<le> (of_char c :: int) \<and> (of_char c :: int) \<le> 90))"

definition name_char :: "char \<Rightarrow> bool" where
  "name_char c = (is_alpha c \<or> is_digit c \<or> c = CHR ''.'' \<or> c = CHR ''_'' \<or> c = CHR ''-'')"

definition re_space :: "char \<Rightarrow> bool" where
  "re_space c = (c = CHR 0x09 \<or> c = CHR 0x0A \<or> c = CHR 0x0C \<or> c = CHR 0x0D \<or> c = CHR '' '')"

definition op_char :: "char \<Rightarrow> bool" where
  "op_char c = (c = CHR ''<'' \<or> c = CHR ''>'' \<or> c = CHR ''='')"

definition ver_char :: "char \<Rightarrow> bool" where
  "ver_char c = (is_digit c \<or> c = CHR ''.'')"

text \<open>
  The expression is anchored and the class of each part excludes the first character of
  what follows it, so a match takes the maximal run of each class in turn; the result is
  the three groups.
\<close>

definition dependencyRegex :: "string \<Rightarrow> (string \<times> string \<times> string) option" where
  "dependencyRegex s =
     (let m1 = takeWhile name_char s;
          r1 = dropWhile re_space (dropWhile name_char s)
      in if m1 = [] then None
         else case lit CHR ''('' r1 of None \<Rightarrow> None | Some r2 \<Rightarrow>
           (let m2 = takeWhile op_char r2;
                r3 = dropWhile re_space (dropWhile op_char r2);
                m3 = takeWhile ver_char r3;
                r4 = dropWhile ver_char r3
            in if m2 = [] \<or> m3 = [] then None
               else if r4 = '')'' then Some (m1, m2, m3) else None))"

definition ParseDependency :: "string \<Rightarrow> Dependency" where
  "ParseDependency dep =
     (case dependencyRegex (TrimSpace dep) of
        Some (m1, m2, m3) \<Rightarrow> \<lparr>DepName = m1, Constraint = m2, DepVersion = m3\<rparr>
      | None \<Rightarrow> \<lparr>DepName = dep, Constraint = [], DepVersion = []\<rparr>)"

text \<open>
  The shape \<open>name (operator version)\<close> itself, as the language of the expression: a
  name, optional blanks, an opening parenthesis, an operator, optional blanks, a version
  and a closing parenthesis.
\<close>

definition dep_shape :: "string \<Rightarrow> bool" where
  "dep_shape t =
     (\<exists>n w1 o' w2 v.
        t = n @ w1 @ ''('' @ o' @ w2 @ v @ '')''
        \<and> n \<noteq> [] \<and> list_all name_char n \<and> list_all re_space w1
        \<and> o' \<noteq> [] \<and> list_all op_char o' \<and> list_all re_space w2
        \<and> v \<noteq> [] \<and> list_all ver_char v)"

section \<open>The manager and the installed packages (internal/pkg/manager.go)\<close>

text \<open>
  The map \<open>installed\<close> of the manager holds a record per installed name; a name without
  an entry is Go's \<open>nil\<close>.
\<close>

record Manager =
  installPrefix :: string
  dataDir :: string
  installed :: "string \<rightharpoonup> InstalledPackage"

definition NewManager :: "string \<Rightarrow> string \<Rightarrow> Manager" where
  "NewManager prefix dir = \<lparr>installPrefix = prefix, dataDir = dir, installed = Map.empty\<rparr>"

definition IsInstalled :: "Manager \<Rightarrow> string \<Rightarrow> bool" where
  "IsInstalled m name = (installed m name \<noteq> None)"

definition GetInstalled :: "Manager \<Rightarrow> string \<Rightarrow> InstalledPackage option" where
  "GetInstalled m name = installed m name"

datatype error =
    DependencyNotFound string
  | PackageNotInstalled string
  | IOError string

section \<open>Dependency resolution (\<open>ResolveDependencies\<close>, manager.go lines 159 to 208)\<close>

text \<open>
  The test at the head of the loop body of \<open>resolve\<close>: the dependency names an
  installed package whose version satisfies the constraint.
\<close>

definition dep_satisfied :: "Manager \<Rightarrow> Dependency \<Rightarrow> bool" where
  "dep_satisfied m dep =
     (case GetInstalled m (DepName dep) of
        None \<Rightarrow> False
      | Some inst \<Rightarrow> versionSatisfies (Version inst) (Constraint dep) (DepVersion dep))"

text \<open>The search of the catalog: the first entry with the name.\<close>

definition find_available :: "Package list \<Rightarrow> string \<Rightarrow> Package option" where
  "find_available available name = find (\<lambda>q. Name q = name) available"

text \<open>
  The closure \<open>resolve\<close> writes to the set \<open>resolved\<close> and the list \<open>result\<close>; both
  are passed along. The recursion has no guard against a cycle of the catalog, so the
  model counts the depth of the calls: with \<open>n\<close> levels left, \<open>None\<close> says that the
  recursion wanted to go deeper.
\<close>

record rstate =
  resolved :: "string set"
  result :: "Package list"

fun resolve :: "nat \<Rightarrow> Manager \<Rightarrow> Package list \<Rightarrow> rstate \<Rightarrow> Package \<Rightarrow> (error + rstate) option"
  and resolve_deps :: "nat \<Rightarrow> Manager \<Rightarrow> Package list \<Rightarrow> rstate \<Rightarrow> string list \<Rightarrow> (error + rstate) option"
where
  "resolve 0 m available st p = None"
| "resolve (Suc n) m available st p =
     (if Name p \<in> resolved st then Some (Inr st)
      else case resolve_deps n m available st (Depends p) of
             None \<Rightarrow> None
           | Some (Inl e) \<Rightarrow> Some (Inl e)
           | Some (Inr st') \<Rightarrow>
               Some (Inr (st'\<lparr>resolved := insert (Name p) (resolved st'),
                              result := result st' @ [p]\<rparr>)))"
| "resolve_deps n m available st [] = Some (Inr st)"
| "resolve_deps n m available st (depStr # rest) =
     (let dep = ParseDependency depStr
      in if dep_satisfied m dep then resolve_deps n m available st rest
         else case find_available available (DepName dep) of
                None \<Rightarrow> Some (Inl (DependencyNotFound (DepName dep)))
              | Some depPkg \<Rightarrow>
                  (case resolve n m available st depPkg of
                     None \<Rightarrow> None
                   | Some (Inl e) \<Rightarrow> Some (Inl e)
                   | Some (Inr st') \<Rightarrow> resolve_deps n m available st' rest))"

definition ResolveDependencies ::
  "nat \<Rightarrow> Manager \<Rightarrow> Package \<Rightarrow> Package list \<Rightarrow> (error + Package list) option" where
  "ResolveDependencies n m pkg available =
     (case resolve n m available \<lparr>resolved = {}, result = []\<rparr> pkg of
        None \<Rightarrow> None
      | Some (Inl e) \<Rightarrow> Some (Inl e)
      | Some (Inr st) \<Rightarrow> Some (Inr (result st)))"

text \<open>
  The dependency graph the resolver walks: from a package to the catalog entries it
  recurses into, one for each dependency that the installed packages do not satisfy and
  that the catalog can serve.
\<close>

definition dep_target :: "Manager \<Rightarrow> Package list \<Rightarrow> string \<Rightarrow> Package list" where
  "dep_target m available depStr =
     (let dep = ParseDependency depStr
      in if dep_satisfied m dep then []
         else case find_available available (DepName dep) of
                None \<Rightarrow> [] | Some q \<Rightarrow> [q])"

definition dep_targets :: "Manager \<Rightarrow> Package list \<Rightarrow> Package \<Rightarrow> Package list" where
  "dep_targets m available p = concat (map (dep_target m available) (Depends p))"

text \<open>The dependencies nothing serves: neither an installed package nor the catalog.\<close>

definition dep_missing :: "Manager \<Rightarrow> Package list \<Rightarrow> string \<Rightarrow> string list" where
  "dep_missing m available depStr =
     (let dep = ParseDependency depStr
      in if dep_satisfied m dep then []
         else case find_available available (DepName dep) of
                None \<Rightarrow> [DepName dep] | Some q \<Rightarrow> [])"

definition missing_deps :: "Manager \<Rightarrow> Package list \<Rightarrow> Package \<Rightarrow> string list" where
  "missing_deps m available p = concat (map (dep_missing m available) (Depends p))"

definition dep_edges :: "Manager \<Rightarrow> Package list \<Rightarrow> (Package \<times> Package) set" where
  "dep_edges m available = {(q, p). q \<in> set (dep_targets m available p)}"

definition reachable :: "Manager \<Rightarrow> Package list \<Rightarrow> Package \<Rightarrow> Package set" where
  "reachable m available t = {q. (q, t) \<in> (dep_edges m available)\<^sup>*}"

text \<open>\<open>q\<close> stands before \<open>p\<close> in the list.\<close>

definition precedes :: "'a \<Rightarrow> 'a \<Rightarrow> 'a list \<Rightarrow> bool" where
  "precedes q p rs = (\<exists>i j. i < j \<and> j < length rs \<and> rs ! i = q \<and> rs ! j = p)"

text \<open>
  What holds of the state between two calls of \<open>resolve\<close>: the resolved names are the
  names of the list, every package of the list is the catalog's entry for its name, no
  package occurs twice, and the packages a member depends on stand before it.
\<close>

definition topo :: "Manager \<Rightarrow> Package list \<Rightarrow> Package list \<Rightarrow> bool" where
  "topo m available rs =
     (\<forall>i<length rs. set (dep_targets m available (rs ! i)) \<subseteq> set (take i rs))"

definition good_state :: "Manager \<Rightarrow> Package list \<Rightarrow> rstate \<Rightarrow> bool" where
  "good_state m available st =
     (resolved st = Name ` set (result st)
      \<and> (\<forall>q\<in>set (result st). find_available available (Name q) = Some q)
      \<and> distinct (result st)
      \<and> topo m available (result st))"


text \<open>
  A package resolves well when, from every such state, the call returns with such a state
  again, the list grown by what the package reaches.
\<close>

definition node_ok :: "Manager \<Rightarrow> Package list \<Rightarrow> Package \<Rightarrow> bool" where
  "node_ok m a p =
     (\<forall>st. good_state m a st \<longrightarrow>
        (\<exists>n st'. resolve n m a st p = Some (Inr st') \<and> good_state m a st'
           \<and> set (result st') = set (result st) \<union> reachable m a p))"

text \<open>A catalog entry with defaults for the fields the resolver does not read.\<close>

definition mk_package :: "string \<Rightarrow> string \<Rightarrow> string list \<Rightarrow> Package" where
  "mk_package name ver deps =
     \<lparr>Name = name, Version = ver, Revision = 1, PHPVersion = [], Description = [],
      Platform = [], Depends = deps, Conflicts = [], Provides = [], InstalledSize = 0,
      Maintainer = [], URL = [], SHA256 = [], Size = 0\<rparr>"

text \<open>
  The catalog of the scenario; a dependency on a name with an operator and a version is
  written the way \<open>ParseDependency\<close> reads it.
\<close>

definition php_common :: Package where
  "php_common = mk_package ''php8.5-common'' ''1.0'' []"

definition php_cli :: Package where
  "php_cli = mk_package ''php8.5-cli'' ''1.0'' [''php8.5-common (>= 1.0)'']"

definition php_redis :: Package where
  "php_redis = mk_package ''php8.5-redis'' ''2.0'' [''php8.5-cli (>= 1.0)'']"

definition scenario_catalog :: "Package list" where
  "scenario_catalog = [php_common, php_cli, php_redis]"

section \<open>Upgrades (\<open>CheckUpgrade\<close>, manager.go lines 515 to 531)\<close>

definition CheckUpgrade :: "Manager \<Rightarrow> string \<Rightarrow> string \<Rightarrow> string" where
  "CheckUpgrade m name availableVersion =
     (case GetInstalled m name of
        None \<Rightarrow> []
      | Some inst \<Rightarrow>
          if Pinned inst then []
          else if compareVersions availableVersion (Version inst) > 0 then availableVersion
          else [])"

section \<open>The catalog (\<open>GetPackages\<close> and \<open>GetPackage\<close>, repo.go lines 106 to 132)\<close>

record Index =
  IndexVersion :: int
  Generated :: string
  Platforms :: "string \<rightharpoonup> Package list"

text \<open>
  The repository holds the loaded index, if any. \<open>cfg.Platform()\<close> is the identifier of
  the machine the program runs on; it is a parameter here.
\<close>

record Repository =
  index :: "Index option"
  platform :: string

definition GetPackages :: "Repository \<Rightarrow> Package list" where
  "GetPackages r =
     (case index r of
        None \<Rightarrow> []
      | Some idx \<Rightarrow> (case Platforms idx (platform r) of None \<Rightarrow> [] | Some ps \<Rightarrow> ps))"

fun latest_loop :: "string \<Rightarrow> Package option \<Rightarrow> Package list \<Rightarrow> Package option" where
  "latest_loop name latest [] = latest"
| "latest_loop name latest (p # ps) =
     latest_loop name
       (if Name p = name then
          (case latest of
             None \<Rightarrow> Some p
           | Some l \<Rightarrow> if compareVersions (Version p) (Version l) > 0 then Some p else latest)
        else latest) ps"

definition GetPackage :: "Repository \<Rightarrow> string \<Rightarrow> Package option" where
  "GetPackage r name = latest_loop name None (GetPackages r)"

section \<open>Example data\<close>

text \<open>An installed record: a catalog entry with its files, slot and pin.\<close>

definition mk_installed :: "Package \<Rightarrow> string list \<Rightarrow> string \<Rightarrow> bool \<Rightarrow> InstalledPackage" where
  "mk_installed p files slot pin =
     Package.extend p
       \<lparr>InstalledAt = 0, InstalledFiles = files, InstallSlot = slot, Pinned = pin\<rparr>"

definition installed_common :: InstalledPackage where
  "installed_common = mk_installed php_common [] ''8.5'' False"

text \<open>\<open>php8.5-cli\<close> installed at 1.0 in the tracked slot 8.5, pinned or not.\<close>

definition installed_cli :: "bool \<Rightarrow> InstalledPackage" where
  "installed_cli pin = mk_installed php_cli [''/opt/php/8.5/bin/php''] ''8.5'' pin"

definition manager_with :: "InstalledPackage \<Rightarrow> Manager" where
  "manager_with inst = (NewManager ''/opt/php'' ''/var/phm'') \<lparr>installed := [Name inst \<mapsto> inst]\<rparr>"

text \<open>A catalog that lists \<open>php8.5-cli\<close> three times.\<close>

definition cli_revision :: "string \<Rightarrow> int \<Rightarrow> Package" where
  "cli_revision ver revision = (mk_package ''php8.5-cli'' ver []) \<lparr>Revision := revision\<rparr>"

definition revisions_repo :: Repository where
  "revisions_repo =
     \<lparr>index = Some \<lparr>IndexVersion = 1, Generated = [],
                     Platforms = [''darwin-arm64'' \<mapsto>
                       [cli_revision ''1.0'' 3, cli_revision ''1.1'' 1, cli_revision ''1.1'' 2]]\<rparr>,
      platform = ''darwin-arm64''\<rparr>"




section \<open>Installing and removing (manager.go lines 286 to 458)\<close>

text \<open>
  What is outside the program. The archive has been read into its entries: each has the
  name and the type of its header and the bytes \<open>io.ReadAll\<close> returns, \<open>None\<close> when the
  read fails; the stream ends with \<open>io.EOF\<close> or with an error of \<open>tr.Next\<close>. Opening the
  file or the compressed stream may fail before any entry is seen.
\<close>

record tar_entry =
  entry_name :: string
  is_dir :: bool
  content :: "string option"

datatype archive = OpenFailed | ZstdFailed | Tar "tar_entry list" bool

text \<open>
  The file system holds the files by path, and the ledger directory holds one file for
  each name; directories are not tracked, and the scratch copy in the temporary directory
  is not part of it. A file of the ledger holds the complete record, or it is damaged:
  cut short, so that loading the ledger skips it.
\<close>

datatype ledger_file = Record InstalledPackage | Damaged

record world =
  files :: "string \<rightharpoonup> string"
  ledger :: "string \<rightharpoonup> ledger_file"

text \<open>
  \<open>os.WriteFile\<close> opens the file with truncation, writes and closes. It returns an
  error when the file cannot be opened, and nothing has changed then; when a write fails
  after the file was opened, and the file is left empty or with a part of the data; or
  when only the close fails, and the file holds all the data.
\<close>

datatype write_outcome = Written | Refused | CutShort | CloseFailed

text \<open>
  Which operations succeed is given by the environment, together with the two library
  functions the installer applies to data: \<open>json.Unmarshal\<close> into the package read so far
  and the substitution of the placeholders in a configuration file. The outcome of
  writing the ledger file of a name is one of the four above. For the other operations
  the environment says whether they succeed, and one that does not changes nothing.
\<close>

record env =
  json_unmarshal :: "string \<Rightarrow> Package \<Rightarrow> Package option"
  placeholders :: "string \<Rightarrow> string \<Rightarrow> string"
  write_ok :: "string \<Rightarrow> bool"
  tmp_write_ok :: "string \<Rightarrow> bool"
  sudo_cp_ok :: "string \<Rightarrow> bool"
  db_mkdir_ok :: bool
  db_write :: "string \<Rightarrow> write_outcome"
  remove_ok :: "string \<Rightarrow> bool"
  sudo_rm_ok :: "string \<Rightarrow> bool"
  db_remove_ok :: "string \<Rightarrow> bool"

record InstallOptions =
  OptInstallSlot :: string
  OptPinned :: bool
  CustomName :: string

text \<open>The slot of the archive: the first two components of the version, if it has two.\<close>

definition source_slot :: "string \<Rightarrow> string \<Rightarrow> string" where
  "source_slot version current =
     (let parts = Split_dot version
      in if length parts \<ge> 2 then parts ! 0 @ ''.'' @ parts ! 1 else current)"

text \<open>The destination of a file when the requested slot differs from the archive's.\<close>

definition rewrite_dest :: "string \<Rightarrow> string \<Rightarrow> string \<Rightarrow> string" where
  "rewrite_dest installSlot sourceSlot destPath =
     (if installSlot \<noteq> [] \<and> sourceSlot \<noteq> [] \<and> installSlot \<noteq> sourceSlot then
        (let oldPrefix = ''/opt/php/'' @ sourceSlot @ ''/'';
             newPrefix = ''/opt/php/'' @ installSlot @ ''/''
         in if HasPrefix destPath oldPrefix then newPrefix @ TrimPrefix destPath oldPrefix
            else destPath)
      else destPath)"

definition zero_package :: Package where
  "zero_package =
     \<lparr>Name = [], Version = [], Revision = 0, PHPVersion = [], Description = [],
      Platform = [], Depends = [], Conflicts = [], Provides = [], InstalledSize = 0,
      Maintainer = [], URL = [], SHA256 = [], Size = 0\<rparr>"

text \<open>The variables of the loop over the entries, and the files written so far.\<close>

record loop_state =
  pkgInfo :: Package
  installedFiles :: "string list"
  sourceSlot :: string
  fs :: "string \<rightharpoonup> string"

definition process_entry :: "env \<Rightarrow> InstallOptions \<Rightarrow> loop_state \<Rightarrow> tar_entry \<Rightarrow> error + loop_state" where
  "process_entry ev opts st e =
     (if entry_name e = ''pkginfo.json'' then
        (case content e of
           None \<Rightarrow> Inl (IOError ''read'')
         | Some data \<Rightarrow>
             (case json_unmarshal ev data (pkgInfo st) of
                None \<Rightarrow> Inl (IOError ''unmarshal'')
              | Some p \<Rightarrow>
                  Inr (st\<lparr>pkgInfo := p, sourceSlot := source_slot (Version p) (sourceSlot st)\<rparr>)))
      else if HasPrefix (entry_name e) ''files/'' then
        (let relPath = TrimPrefix (entry_name e) ''files/''
         in if relPath = [] then Inr st
            else
              (let destPath = rewrite_dest (OptInstallSlot opts) (sourceSlot st) (''/'' @ relPath)
               in if is_dir e then Inr st
                  else case content e of
                         None \<Rightarrow> Inl (IOError ''read'')
                       | Some data \<Rightarrow>
                           if write_ok ev destPath
                              \<or> (tmp_write_ok ev destPath \<and> sudo_cp_ok ev destPath)
                           then Inr (st\<lparr>fs := (fs st)(destPath \<mapsto> placeholders ev destPath data),
                                        installedFiles := installedFiles st @ [destPath]\<rparr>)
                           else if \<not> tmp_write_ok ev destPath then Inl (IOError ''write'')
                           else Inl (IOError (''failed to install '' @ destPath))))
      else Inr st)"

text \<open>The loop stops at the first error; what it wrote before stays written.\<close>

fun extract_entries ::
  "env \<Rightarrow> InstallOptions \<Rightarrow> loop_state \<Rightarrow> tar_entry list \<Rightarrow> error option \<times> loop_state" where
  "extract_entries ev opts st [] = (None, st)"
| "extract_entries ev opts st (e # es) =
     (case process_entry ev opts st e of
        Inl err \<Rightarrow> (Some err, st)
      | Inr st' \<Rightarrow> extract_entries ev opts st' es)"

text \<open>
  \<open>saveInstalled\<close>: the directory of the ledger is made, then the record is written with
  \<open>os.WriteFile\<close>. The result is the error, if any, and the system as the call leaves
  it: a write that fails after the file was opened has destroyed what the file held.
\<close>

definition saveInstalled :: "env \<Rightarrow> world \<Rightarrow> InstalledPackage \<Rightarrow> error option \<times> world" where
  "saveInstalled ev w pkg =
     (if \<not> db_mkdir_ok ev then (Some (IOError ''mkdir''), w)
      else case db_write ev (Name pkg) of
             Written \<Rightarrow> (None, w\<lparr>ledger := (ledger w)(Name pkg \<mapsto> Record pkg)\<rparr>)
           | Refused \<Rightarrow> (Some (IOError ''write''), w)
           | CutShort \<Rightarrow> (Some (IOError ''write''), w\<lparr>ledger := (ledger w)(Name pkg \<mapsto> Damaged)\<rparr>)
           | CloseFailed \<Rightarrow>
               (Some (IOError ''write''), w\<lparr>ledger := (ledger w)(Name pkg \<mapsto> Record pkg)\<rparr>))"

definition InstallWithOptions ::
  "Manager \<Rightarrow> env \<Rightarrow> world \<Rightarrow> archive \<Rightarrow> InstallOptions
     \<Rightarrow> (error + InstalledPackage) \<times> Manager \<times> world" where
  "InstallWithOptions m ev w pkgPath opts =
     (case pkgPath of
        OpenFailed \<Rightarrow> (Inl (IOError ''open''), m, w)
      | ZstdFailed \<Rightarrow> (Inl (IOError ''zstd''), m, w)
      | Tar entries bad_end \<Rightarrow>
          (case extract_entries ev opts
                  \<lparr>pkgInfo = zero_package, installedFiles = [], sourceSlot = [], fs = files w\<rparr>
                  entries of
             (Some err, st) \<Rightarrow> (Inl err, m, w\<lparr>files := fs st\<rparr>)
           | (None, st) \<Rightarrow>
               if bad_end then (Inl (IOError ''next''), m, w\<lparr>files := fs st\<rparr>)
               else
                 (let installSlot =
                        (if OptInstallSlot opts \<noteq> [] then OptInstallSlot opts else sourceSlot st);
                      pkgName =
                        (if CustomName opts \<noteq> [] then CustomName opts else Name (pkgInfo st));
                      inst = (mk_installed (pkgInfo st) (installedFiles st) installSlot
                                (OptPinned opts))\<lparr>Name := pkgName\<rparr>
                  in case saveInstalled ev (w\<lparr>files := fs st\<rparr>) inst of
                       (Some err, w') \<Rightarrow> (Inl err, m, w')
                     | (None, w') \<Rightarrow>
                         (Inr inst, m\<lparr>installed := (installed m)(pkgName \<mapsto> inst)\<rparr>, w'))))"

definition Install :: "Manager \<Rightarrow> env \<Rightarrow> world \<Rightarrow> archive \<Rightarrow> (error + InstalledPackage) \<times> Manager \<times> world" where
  "Install m ev w pkgPath =
     InstallWithOptions m ev w pkgPath \<lparr>OptInstallSlot = [], OptPinned = False, CustomName = []\<rparr>"



text \<open>
  The rewriting in the words of the specification: below the installation root, any
  segment of the path that equals the source slot becomes the requested slot.
\<close>

fun split_on :: "char \<Rightarrow> string \<Rightarrow> string list" where
  "split_on sep [] = [[]]"
| "split_on sep (c # cs) =
     (if c = sep then [] # split_on sep cs
      else (c # hd (split_on sep cs)) # tl (split_on sep cs))"

fun join_with :: "char \<Rightarrow> string list \<Rightarrow> string" where
  "join_with sep [] = []"
| "join_with sep [s] = s"
| "join_with sep (s # t # ss) = s @ sep # join_with sep (t # ss)"

definition spec_rewrite_dest :: "string \<Rightarrow> string \<Rightarrow> string \<Rightarrow> string" where
  "spec_rewrite_dest slot src path =
     (if slot \<noteq> src \<and> HasPrefix path ''/opt/php/'' then
        ''/opt/php/'' @ join_with CHR ''/''
           (map (\<lambda>seg. if seg = src then slot else seg)
                (split_on CHR ''/'' (TrimPrefix path ''/opt/php/'')))
      else path)"

text \<open>An archive of \<open>php8.5-cli\<close> at 8.5.0, and environments for it.\<close>

definition cli_850 :: Package where
  "cli_850 = mk_package ''php8.5-cli'' ''8.5.0'' []"

definition cli_archive :: archive where
  "cli_archive =
     Tar [\<lparr>entry_name = ''pkginfo.json'', is_dir = False, content = Some ''{}''\<rparr>,
          \<lparr>entry_name = ''files/opt/php/8.5/bin'', is_dir = True, content = Some []\<rparr>,
          \<lparr>entry_name = ''files/opt/php/8.5/bin/php'', is_dir = False, content = Some ''ELF''\<rparr>,
          \<lparr>entry_name = ''files/opt/php/8.5/lib/8.5/php.so'', is_dir = False, content = Some ''so''\<rparr>]
         False"

definition env_ok :: env where
  "env_ok =
     \<lparr>json_unmarshal = (\<lambda>data p. Some cli_850), placeholders = (\<lambda>path data. data),
      write_ok = (\<lambda>p. True), tmp_write_ok = (\<lambda>p. True), sudo_cp_ok = (\<lambda>p. True),
      db_mkdir_ok = True, db_write = (\<lambda>n. Written),
      remove_ok = (\<lambda>p. True), sudo_rm_ok = (\<lambda>p. True), db_remove_ok = (\<lambda>n. True)\<rparr>"




definition empty_world :: world where
  "empty_world = \<lparr>files = Map.empty, ledger = Map.empty\<rparr>"

definition pinned_options :: InstallOptions where
  "pinned_options = \<lparr>OptInstallSlot = ''8.5.1'', OptPinned = True, CustomName = ''php8.5.1-cli''\<rparr>"

definition manager0 :: Manager where
  "manager0 = NewManager ''/opt/php'' ''/var/phm''"



definition installed_pinned_cli :: InstalledPackage where
  "installed_pinned_cli =
     (mk_installed cli_850 [''/opt/php/8.5.1/bin/php'', ''/opt/php/8.5.1/lib/8.5/php.so'']
        ''8.5.1'' True)\<lparr>Name := ''php8.5.1-cli''\<rparr>"



section \<open>Properties of the version comparison\<close>

lemma cmp_loop_range: "cmp_loop pa pb m i \<in> {-1, 0, 1}"
  by (induction pa pb m i rule: cmp_loop.induct) (subst cmp_loop.simps, simp add: Let_def)

lemma cmp_loop_flip: "cmp_loop pb pa m i = - cmp_loop pa pb m i"
proof (induction pa pb m i rule: cmp_loop.induct)
  case (1 pa pb m i)
  show ?case
    by (subst cmp_loop.simps, subst (2) cmp_loop.simps) (use 1 in \<open>auto simp: Let_def\<close>)
qed

lemma cmp_loop_less_iff:
  "cmp_loop pa pb m i = - 1 \<longleftrightarrow>
     (\<exists>k. i \<le> k \<and> k < m \<and> comp_at pa k < comp_at pb k \<and> (\<forall>j. i \<le> j \<and> j < k \<longrightarrow> comp_at pa j = comp_at pb j))"
proof (induction pa pb m i rule: cmp_loop.induct)
  case (1 pa pb m i)
  show ?case
  proof (cases "i < m")
    case False
    then show ?thesis by (subst cmp_loop.simps) auto
  next
    case True
    consider (lt) "comp_at pa i < comp_at pb i" | (gt) "comp_at pa i > comp_at pb i" | (eq) "comp_at pa i = comp_at pb i"
      by linarith
    then show ?thesis
    proof cases
      case lt
      then have "cmp_loop pa pb m i = - 1" using True
        by (subst cmp_loop.simps) (simp add: comp_at_def Let_def)
      moreover have "\<exists>k. i \<le> k \<and> k < m \<and> comp_at pa k < comp_at pb k \<and> (\<forall>j. i \<le> j \<and> j < k \<longrightarrow> comp_at pa j = comp_at pb j)"
        using lt True by (intro exI[of _ i]) auto
      ultimately show ?thesis by simp
    next
      case gt
      then have "cmp_loop pa pb m i = 1" using True
        by (subst cmp_loop.simps) (simp add: comp_at_def Let_def)
      moreover have "\<not> (\<exists>k. i \<le> k \<and> k < m \<and> comp_at pa k < comp_at pb k \<and> (\<forall>j. i \<le> j \<and> j < k \<longrightarrow> comp_at pa j = comp_at pb j))"
      proof
        assume "\<exists>k. i \<le> k \<and> k < m \<and> comp_at pa k < comp_at pb k \<and> (\<forall>j. i \<le> j \<and> j < k \<longrightarrow> comp_at pa j = comp_at pb j)"
        then obtain k where k: "i \<le> k" "comp_at pa k < comp_at pb k" "\<forall>j. i \<le> j \<and> j < k \<longrightarrow> comp_at pa j = comp_at pb j"
          by blast
        show False
        proof (cases "k = i")
          case True then show ?thesis using k gt by simp
        next
          case False
          then have "i < k" using k by simp
          then show ?thesis using k gt by auto
        qed
      qed
      ultimately show ?thesis by simp
    next
      case eq
      then have step: "cmp_loop pa pb m i = cmp_loop pa pb m (i + 1)" using True
        by (subst cmp_loop.simps) (simp add: comp_at_def Let_def)
      have ih: "cmp_loop pa pb m (i + 1) = - 1 \<longleftrightarrow>
        (\<exists>k. i + 1 \<le> k \<and> k < m \<and> comp_at pa k < comp_at pb k \<and> (\<forall>j. i + 1 \<le> j \<and> j < k \<longrightarrow> comp_at pa j = comp_at pb j))"
        using 1[OF True refl refl] eq by (simp add: comp_at_def)
      have "(\<exists>k. i + 1 \<le> k \<and> k < m \<and> comp_at pa k < comp_at pb k \<and> (\<forall>j. i + 1 \<le> j \<and> j < k \<longrightarrow> comp_at pa j = comp_at pb j))
        \<longleftrightarrow> (\<exists>k. i \<le> k \<and> k < m \<and> comp_at pa k < comp_at pb k \<and> (\<forall>j. i \<le> j \<and> j < k \<longrightarrow> comp_at pa j = comp_at pb j))"
        (is "?L \<longleftrightarrow> ?R")
      proof
        assume ?L
        then obtain k where k: "i + 1 \<le> k" "k < m" "comp_at pa k < comp_at pb k" "\<forall>j. i + 1 \<le> j \<and> j < k \<longrightarrow> comp_at pa j = comp_at pb j"
          by blast
        have "\<forall>j. i \<le> j \<and> j < k \<longrightarrow> comp_at pa j = comp_at pb j"
        proof (intro allI impI)
          fix j assume "i \<le> j \<and> j < k"
          then show "comp_at pa j = comp_at pb j" using k(4) eq by (cases "j = i") auto
        qed
        then show ?R using k by (intro exI[of _ k]) auto
      next
        assume ?R
        then obtain k where k: "i \<le> k" "k < m" "comp_at pa k < comp_at pb k" "\<forall>j. i \<le> j \<and> j < k \<longrightarrow> comp_at pa j = comp_at pb j"
          by blast
        have "k \<noteq> i" using k(3) eq by auto
        then have "i + 1 \<le> k" using k(1) by simp
        then show ?L using k by (intro exI[of _ k]) auto
      qed
      then show ?thesis using step ih by simp
    qed
  qed
qed


lemma comp_at_zero: "length pa \<le> k \<Longrightarrow> comp_at pa k = 0"
  by (simp add: comp_at_def)

lemma cmp_less_iff:
  "cmp_loop pa pb (vmax pa pb) 0 = - 1 \<longleftrightarrow>
     (\<exists>k. comp_at pa k < comp_at pb k \<and> (\<forall>j<k. comp_at pa j = comp_at pb j))"
proof -
  have "k < vmax pa pb" if "comp_at pa k < comp_at pb k" for k
  proof (rule ccontr)
    assume "\<not> k < vmax pa pb"
    then have "length pa \<le> k" "length pb \<le> k" by (auto simp: vmax_def split: if_splits)
    then show False using that by (simp add: comp_at_zero)
  qed
  then show ?thesis unfolding cmp_loop_less_iff by auto
qed

lemma cmp_trans:
  assumes "cmp_loop pa pb (vmax pa pb) 0 = - 1" "cmp_loop pb pc (vmax pb pc) 0 = - 1"
  shows "cmp_loop pa pc (vmax pa pc) 0 = - 1"
proof -
  from assms(1) obtain k1 where k1: "comp_at pa k1 < comp_at pb k1" "\<forall>j<k1. comp_at pa j = comp_at pb j"
    unfolding cmp_less_iff by blast
  from assms(2) obtain k2 where k2: "comp_at pb k2 < comp_at pc k2" "\<forall>j<k2. comp_at pb j = comp_at pc j"
    unfolding cmp_less_iff by blast
  let ?k = "min k1 k2"
  have "comp_at pa ?k < comp_at pc ?k"
  proof (cases k1 k2 rule: linorder_cases)
    case less then show ?thesis using k1 k2 by (simp add: min_def)
  next
    case equal then show ?thesis using k1 k2 by (simp add: min_def)
  next
    case greater then show ?thesis using k1 k2 by (simp add: min_def)
  qed
  moreover have "\<forall>j<?k. comp_at pa j = comp_at pc j" using k1 k2 by simp
  ultimately show ?thesis unfolding cmp_less_iff by blast
qed

lemma vmax_commute: "vmax pa pb = vmax pb pa" by (simp add: vmax_def)

lemma compareVersions_loop: "compareVersions a b = cmp_loop (Split_dot a) (Split_dot b) (vmax (Split_dot a) (Split_dot b)) 0"
  by (simp add: compareVersions_def vmax_def Let_def)









lemma compareVersions_less_iff:
  "compareVersions a b = - 1 \<longleftrightarrow>
     (\<exists>k. comp_at (Split_dot a) k < comp_at (Split_dot b) k
          \<and> (\<forall>j<k. comp_at (Split_dot a) j = comp_at (Split_dot b) j))"
  unfolding compareVersions_loop by (rule cmp_less_iff)

lemma compareVersions_flip: "compareVersions b a = - compareVersions a b"
  unfolding compareVersions_loop vmax_commute[of "Split_dot b"] by (rule cmp_loop_flip)

lemma compareVersions_range: "compareVersions a b \<in> {- 1, 0, 1}"
  unfolding compareVersions_loop by (rule cmp_loop_range)

lemma compareVersions_eq_iff:
  "compareVersions a b = 0 \<longleftrightarrow> (\<forall>k. comp_at (Split_dot a) k = comp_at (Split_dot b) k)"
proof
  assume z: "compareVersions a b = 0"
  show "\<forall>k. comp_at (Split_dot a) k = comp_at (Split_dot b) k"
  proof (rule ccontr)
    assume "\<not> (\<forall>k. comp_at (Split_dot a) k = comp_at (Split_dot b) k)"
    then have ex: "\<exists>k. comp_at (Split_dot a) k \<noteq> comp_at (Split_dot b) k" by simp
    define k where "k = (LEAST k. comp_at (Split_dot a) k \<noteq> comp_at (Split_dot b) k)"
    have k1: "comp_at (Split_dot a) k \<noteq> comp_at (Split_dot b) k"
      unfolding k_def using ex by (rule LeastI_ex)
    have k2: "\<forall>j<k. comp_at (Split_dot a) j = comp_at (Split_dot b) j"
      unfolding k_def using not_less_Least by blast
    from k1 consider "comp_at (Split_dot a) k < comp_at (Split_dot b) k"
      | "comp_at (Split_dot b) k < comp_at (Split_dot a) k" by linarith
    then show False
    proof cases
      case 1
      then have "compareVersions a b = - 1" unfolding compareVersions_less_iff using k2 by blast
      then show False using z by simp
    next
      case 2
      then have "compareVersions b a = - 1" unfolding compareVersions_less_iff using k2 by auto
      then show False using z compareVersions_flip[of b a] by simp
    qed
  qed
next
  assume e: "\<forall>k. comp_at (Split_dot a) k = comp_at (Split_dot b) k"
  have "compareVersions a b \<noteq> - 1" unfolding compareVersions_less_iff using e by simp
  moreover have "compareVersions b a \<noteq> - 1" unfolding compareVersions_less_iff using e by simp
  ultimately show "compareVersions a b = 0"
    using compareVersions_range[of a b] compareVersions_flip[of a b] by auto
qed

lemma compareVersions_le_less_trans:
  assumes "compareVersions a b \<le> 0" "compareVersions b c = - 1"
  shows "compareVersions a c = - 1"
proof -
  from assms(1) compareVersions_range[of a b]
  consider "compareVersions a b = - 1" | "compareVersions a b = 0" by auto
  then show ?thesis
  proof cases
    case 1
    then show ?thesis using assms(2) cmp_trans unfolding compareVersions_loop by blast
  next
    case 2
    then have "\<forall>k. comp_at (Split_dot a) k = comp_at (Split_dot b) k"
      by (simp add: compareVersions_eq_iff)
    then show ?thesis using assms(2) unfolding compareVersions_less_iff by simp
  qed
qed

section \<open>Properties of the parsers\<close>

lemma run_split:
  assumes "list_all P n" "r = [] \<or> \<not> P (hd r)"
  shows "takeWhile P (n @ r) = n" "dropWhile P (n @ r) = r"
proof -
  have a: "\<forall>x\<in>set n. P x" using assms(1) by (simp add: list_all_iff)
  have t: "takeWhile P r = []" using assms(2) by (cases r) auto
  have d: "dropWhile P r = r" using assms(2) by (cases r) auto
  show "takeWhile P (n @ r) = n" using a t by (simp add: takeWhile_append2)
  show "dropWhile P (n @ r) = r" using a d by (simp add: dropWhile_append2)
qed

lemma class_facts:
  "\<not> name_char CHR ''(''" "\<not> re_space CHR ''(''"
  "re_space c \<Longrightarrow> \<not> name_char c"
  "re_space c \<Longrightarrow> \<not> op_char c"
  "ver_char c \<Longrightarrow> \<not> op_char c"
  "ver_char c \<Longrightarrow> \<not> re_space c"
  "\<not> ver_char CHR '')''"
  by (auto simp: name_char_def re_space_def op_char_def ver_char_def is_alpha_def is_digit_def)

lemma lit_Some: "lit c s = Some r \<longleftrightarrow> s = c # r"
  by (auto simp: lit_def split: list.splits)

lemma dependencyRegex_sound:
  assumes "dependencyRegex t = Some (m1, m2, m3)"
  shows "dep_shape t"
proof -
  define r0 where "r0 = dropWhile name_char t"
  define r1 where "r1 = dropWhile re_space r0"
  from assms obtain r2 where r2: "lit CHR ''('' r1 = Some r2" and m1: "m1 = takeWhile name_char t" "m1 \<noteq> []"
    by (auto simp: dependencyRegex_def Let_def r1_def r0_def split: if_splits option.splits)
  define r2' where "r2' = dropWhile op_char r2"
  define r3 where "r3 = dropWhile re_space r2'"
  from assms r2 have rest: "m2 = takeWhile op_char r2" "m2 \<noteq> []" "m3 = takeWhile ver_char r3" "m3 \<noteq> []"
      "dropWhile ver_char r3 = '')''"
    by (auto simp: dependencyRegex_def Let_def r1_def r0_def r3_def r2'_def split: if_splits option.splits)
  have "t = m1 @ r0" by (simp add: m1 r0_def)
  also have "r0 = takeWhile re_space r0 @ r1" by (simp add: r1_def)
  also have "r1 = ''('' @ r2" using r2 by (simp add: lit_Some)
  also have "r2 = m2 @ r2'" by (simp add: rest r2'_def)
  also have "r2' = takeWhile re_space r2' @ r3" by (simp add: r3_def)
  also have "r3 = m3 @ '')''" using rest(5) takeWhile_dropWhile_id[of ver_char r3] by (simp add: rest)
  finally have t: "t = m1 @ takeWhile re_space r0 @ ''('' @ m2 @ takeWhile re_space r2' @ m3 @ '')''"
    by simp
  have cls: "list_all name_char m1" "list_all re_space (takeWhile re_space r0)"
    "list_all op_char m2" "list_all re_space (takeWhile re_space r2')" "list_all ver_char m3"
    by (auto simp: m1 rest list_all_iff dest: set_takeWhileD)
  show ?thesis unfolding dep_shape_def
    using t cls m1(2) rest(2,4) by blast
qed

lemma dependencyRegex_complete:
  assumes t: "t = n @ w1 @ ''('' @ o' @ w2 @ v @ '')''"
    and cls: "n \<noteq> []" "list_all name_char n" "list_all re_space w1"
        "o' \<noteq> []" "list_all op_char o'" "list_all re_space w2"
        "v \<noteq> []" "list_all ver_char v"
  shows "dependencyRegex t = Some (n, o', v)"
proof -
  have hd1: "\<not> name_char (hd (w1 @ ''('' @ o' @ w2 @ v @ '')''))"
    using cls(3) class_facts(1,3) by (cases w1) auto
  have s1: "takeWhile name_char t = n" "dropWhile name_char t = w1 @ ''('' @ o' @ w2 @ v @ '')''"
    unfolding t using run_split[OF cls(2), of "w1 @ ''('' @ o' @ w2 @ v @ '')''"] hd1 by auto
  have s2: "dropWhile re_space (w1 @ ''('' @ o' @ w2 @ v @ '')'') = ''('' @ o' @ w2 @ v @ '')''"
    using run_split(2)[OF cls(3), of "''('' @ o' @ w2 @ v @ '')''"] class_facts(2) by simp
  have hd3: "\<not> op_char (hd (w2 @ v @ '')''))"
    using cls(6,7,8) class_facts(4,5) by (cases w2; cases v) auto
  have s3: "takeWhile op_char (o' @ w2 @ v @ '')'') = o'" "dropWhile op_char (o' @ w2 @ v @ '')'') = w2 @ v @ '')''"
    using run_split[OF cls(5), of "w2 @ v @ '')''"] hd3 by auto
  have hd4: "\<not> re_space (hd (v @ '')''))"
    using cls(7,8) class_facts(6) by (cases v) auto
  have s4: "dropWhile re_space (w2 @ v @ '')'') = v @ '')''"
    using run_split(2)[OF cls(6), of "v @ '')''"] hd4 by auto
  have s5: "takeWhile ver_char (v @ '')'') = v" "dropWhile ver_char (v @ '')'') = '')''"
    using run_split[OF cls(8), of "'')''"] class_facts(7) by auto
  show ?thesis
    unfolding dependencyRegex_def Let_def s1 s2
    using cls(1,4,7) by (simp add: lit_def s3 s4 s5)
qed

lemma dep_shape_iff: "dep_shape t \<longleftrightarrow> dependencyRegex t \<noteq> None"
proof
  assume "dep_shape t"
  then show "dependencyRegex t \<noteq> None"
    unfolding dep_shape_def using dependencyRegex_complete by fastforce
next
  assume "dependencyRegex t \<noteq> None"
  then obtain m1 m2 m3 where "dependencyRegex t = Some (m1, m2, m3)" by auto
  then show "dep_shape t" by (rule dependencyRegex_sound)
qed

lemma versionSatisfies_empty: "op = [] \<or> req = [] \<Longrightarrow> versionSatisfies v op req"
  by (simp add: versionSatisfies_def)

lemma versionSatisfies_unknown:
  "op \<notin> {''>='', ''>'', ''<='', ''<'', ''='', ''==''} \<Longrightarrow> versionSatisfies v op req"
  by (simp add: versionSatisfies_def Let_def)

text \<open>
  Claim C10. A dependency string that, trimmed, is not of the shape
  \<open>name (operator version)\<close> is returned whole as the name, with empty operator and
  version. \<open>versionSatisfies\<close> is true when the operator or the required version is
  empty, and for every operator other than \<open>>=\<close>, \<open>>\<close>, \<open><=\<close>, \<open><\<close>, \<open>=\<close> and
  \<open>==\<close>. So the resolver passes over such a dependency as soon as a package of that
  name is installed, whatever its version.
\<close>

theorem ParseDependency_unconstrained:
  "(\<not> dep_shape (TrimSpace dep) \<longrightarrow>
      ParseDependency dep = \<lparr>DepName = dep, Constraint = [], DepVersion = []\<rparr>)
   \<and> (op = [] \<or> req = [] \<longrightarrow> versionSatisfies v op req)
   \<and> (op \<notin> {''>='', ''>'', ''<='', ''<'', ''='', ''==''} \<longrightarrow> versionSatisfies v op req)
   \<and> (installed m (DepName (ParseDependency dep)) \<noteq> None
        \<and> (Constraint (ParseDependency dep) = [] \<or> DepVersion (ParseDependency dep) = []
            \<or> Constraint (ParseDependency dep) \<notin> {''>='', ''>'', ''<='', ''<'', ''='', ''==''})
       \<longrightarrow> resolve_deps n m available st (dep # rest) = resolve_deps n m available st rest)"
proof -
  have p1: "\<not> dep_shape (TrimSpace dep) \<longrightarrow>
      ParseDependency dep = \<lparr>DepName = dep, Constraint = [], DepVersion = []\<rparr>"
    by (auto simp: dep_shape_iff ParseDependency_def split: option.splits)
  have p4: "resolve_deps n m available st (dep # rest) = resolve_deps n m available st rest"
    if i: "installed m (DepName (ParseDependency dep)) \<noteq> None"
      and c: "Constraint (ParseDependency dep) = [] \<or> DepVersion (ParseDependency dep) = []
            \<or> Constraint (ParseDependency dep) \<notin> {''>='', ''>'', ''<='', ''<'', ''='', ''==''}"
  proof -
    from i obtain inst where inst: "installed m (DepName (ParseDependency dep)) = Some inst" by auto
    have "versionSatisfies (Version inst) (Constraint (ParseDependency dep)) (DepVersion (ParseDependency dep))"
      using c versionSatisfies_empty versionSatisfies_unknown by blast
    then have "dep_satisfied m (ParseDependency dep)"
      by (simp add: dep_satisfied_def GetInstalled_def inst)
    then show ?thesis by (simp add: Let_def)
  qed
  show ?thesis
    using p1 versionSatisfies_empty[of op req v] versionSatisfies_unknown[of op v req] p4 by blast
qed

theorem ParseDependency_unconstrained_witness:
  "ParseDependency ''php8.5-common'' =
      \<lparr>DepName = ''php8.5-common'', Constraint = [], DepVersion = []\<rparr>
   \<and> versionSatisfies ''1.0'' [] ''2.0''
   \<and> versionSatisfies ''1.0'' ''=>'' ''2.0''
   \<and> resolve_deps 1 (NewManager [] [] \<lparr>installed := [''php8.5-common'' \<mapsto> installed_common]\<rparr>)
        [] \<lparr>resolved = {}, result = []\<rparr> [''php8.5-common'']
      = Some (Inr \<lparr>resolved = {}, result = []\<rparr>)"
proof -
  have h1: "\<not> dep_shape (TrimSpace ''php8.5-common'')"
    unfolding dep_shape_iff by code_simp
  have h2: "''=>'' \<notin> {''>='', ''>'', ''<='', ''<'', ''='', ''==''}" by simp
  have pd: "ParseDependency ''php8.5-common'' =
      \<lparr>DepName = ''php8.5-common'', Constraint = [], DepVersion = []\<rparr>"
    using ParseDependency_unconstrained [of "''php8.5-common''"] h1 by blast
  have h3: "installed (NewManager [] [] \<lparr>installed := [''php8.5-common'' \<mapsto> installed_common]\<rparr>)
              (DepName (ParseDependency ''php8.5-common'')) \<noteq> None"
    by (simp add: pd)
  have h4: "Constraint (ParseDependency ''php8.5-common'') = []" by (simp add: pd)
  show ?thesis
    using ParseDependency_unconstrained
            [of "''php8.5-common''" "[]" "''2.0''" "''1.0''"
                "NewManager [] [] \<lparr>installed := [''php8.5-common'' \<mapsto> installed_common]\<rparr>"
                1 "[]" "\<lparr>resolved = {}, result = []\<rparr>" "[]"]
          ParseDependency_unconstrained
            [of "''php8.5-common''" "''=>''" "''2.0''" "''1.0''"]
          h1 h2 h3 h4
    by simp
qed

text \<open>
  The two matchers of package names return the groups of a match exactly for the strings
  of the two expressions: \<open>php\<close>, digits, a dot, digits, for the pinned form a dot
  and digits again, a hyphen and a nonempty rest without a line feed.
\<close>

lemma digits1_Some:
  "digits1 s = Some (d, r) \<longleftrightarrow>
     s = d @ r \<and> d \<noteq> [] \<and> list_all is_digit d \<and> (r = [] \<or> \<not> is_digit (hd r))"
proof
  assume "digits1 s = Some (d, r)"
  then have d: "d = takeWhile is_digit s" "r = dropWhile is_digit s" "d \<noteq> []"
    by (auto simp: digits1_def split: if_splits)
  have "r = [] \<or> \<not> is_digit (hd r)" unfolding d(2) by (metis hd_dropWhile)
  moreover have "list_all is_digit d" unfolding d(1) by (auto simp: list_all_iff dest: set_takeWhileD)
  ultimately show "s = d @ r \<and> d \<noteq> [] \<and> list_all is_digit d \<and> (r = [] \<or> \<not> is_digit (hd r))"
    using d by simp
next
  assume a: "s = d @ r \<and> d \<noteq> [] \<and> list_all is_digit d \<and> (r = [] \<or> \<not> is_digit (hd r))"
  then have "takeWhile is_digit s = d" "dropWhile is_digit s = r"
    using run_split[of is_digit d r] by auto
  then show "digits1 s = Some (d, r)" using a by (simp add: digits1_def)
qed

lemma not_digit_facts: "\<not> is_digit CHR ''.''" "\<not> is_digit CHR ''-''"
  by (simp_all add: is_digit_def)

lemma HasPrefix_php: "HasPrefix name ''php'' \<longleftrightarrow> (\<exists>r. name = ''php'' @ r)"
proof
  assume "HasPrefix name ''php''"
  then have "take 3 name = ''php''" by (simp add: HasPrefix_def numeral_3_eq_3)
  then have "name = ''php'' @ drop 3 name" by (metis append_take_drop_id)
  then show "\<exists>r. name = ''php'' @ r" by blast
next
  assume "\<exists>r. name = ''php'' @ r"
  then show "HasPrefix name ''php''" by (auto simp: HasPrefix_def)
qed

lemma patchVersionRegex_iff:
  "patchVersionRegex name = Some (a, b, c, t) \<longleftrightarrow>
     name = ''php'' @ a @ ''.'' @ b @ ''.'' @ c @ ''-'' @ t
     \<and> a \<noteq> [] \<and> list_all is_digit a \<and> b \<noteq> [] \<and> list_all is_digit b
     \<and> c \<noteq> [] \<and> list_all is_digit c \<and> t \<noteq> [] \<and> CHR 0x0A \<notin> set t"
proof
  assume m: "patchVersionRegex name = Some (a, b, c, t)"
  then have p: "HasPrefix name ''php''" by (auto simp: patchVersionRegex_def split: if_splits)
  then have n: "name = ''php'' @ drop 3 name" by (auto simp: HasPrefix_php)
  from m p obtain r1 r2 r3 r4 r5 r6 where
    s: "digits1 (drop 3 name) = Some (a, r1)" "lit CHR ''.'' r1 = Some r2"
       "digits1 r2 = Some (b, r3)" "lit CHR ''.'' r3 = Some r4"
       "digits1 r4 = Some (c, r5)" "lit CHR ''-'' r5 = Some r6" "any1 r6 = Some t"
    by (auto simp: patchVersionRegex_def split: option.splits if_splits)
  have t: "r6 = t" "t \<noteq> []" "CHR 0x0A \<notin> set t"
    using s(7) by (auto simp: any1_def split: if_splits)
  have "drop 3 name = a @ ''.'' @ b @ ''.'' @ c @ ''-'' @ t"
    using s t(1) by (simp add: digits1_Some lit_Some)
  then show "name = ''php'' @ a @ ''.'' @ b @ ''.'' @ c @ ''-'' @ t
     \<and> a \<noteq> [] \<and> list_all is_digit a \<and> b \<noteq> [] \<and> list_all is_digit b
     \<and> c \<noteq> [] \<and> list_all is_digit c \<and> t \<noteq> [] \<and> CHR 0x0A \<notin> set t"
    using n s(1,3,5) t(2,3) by (simp add: digits1_Some)
next
  assume a: "name = ''php'' @ a @ ''.'' @ b @ ''.'' @ c @ ''-'' @ t
     \<and> a \<noteq> [] \<and> list_all is_digit a \<and> b \<noteq> [] \<and> list_all is_digit b
     \<and> c \<noteq> [] \<and> list_all is_digit c \<and> t \<noteq> [] \<and> CHR 0x0A \<notin> set t"
  have p: "HasPrefix name ''php''" using a by (auto simp: HasPrefix_php)
  have d: "drop 3 name = a @ ''.'' @ b @ ''.'' @ c @ ''-'' @ t" using a by simp
  have s1: "digits1 (a @ ''.'' @ b @ ''.'' @ c @ ''-'' @ t) = Some (a, ''.'' @ b @ ''.'' @ c @ ''-'' @ t)"
    using a not_digit_facts by (simp add: digits1_Some)
  have s2: "digits1 (b @ ''.'' @ c @ ''-'' @ t) = Some (b, ''.'' @ c @ ''-'' @ t)"
    using a not_digit_facts by (simp add: digits1_Some)
  have s3: "digits1 (c @ ''-'' @ t) = Some (c, ''-'' @ t)"
    using a not_digit_facts by (simp add: digits1_Some)
  have s4: "any1 t = Some t" using a by (simp add: any1_def)
  show "patchVersionRegex name = Some (a, b, c, t)"
    unfolding patchVersionRegex_def d using p s1 s2 s3 s4 by (simp add: lit_def)
qed

lemma minorVersionRegex_iff:
  "minorVersionRegex name = Some (a, b, t) \<longleftrightarrow>
     name = ''php'' @ a @ ''.'' @ b @ ''-'' @ t
     \<and> a \<noteq> [] \<and> list_all is_digit a \<and> b \<noteq> [] \<and> list_all is_digit b
     \<and> t \<noteq> [] \<and> CHR 0x0A \<notin> set t"
proof
  assume m: "minorVersionRegex name = Some (a, b, t)"
  then have p: "HasPrefix name ''php''" by (auto simp: minorVersionRegex_def split: if_splits)
  then have n: "name = ''php'' @ drop 3 name" by (auto simp: HasPrefix_php)
  from m p obtain r1 r2 r3 r4 where
    s: "digits1 (drop 3 name) = Some (a, r1)" "lit CHR ''.'' r1 = Some r2"
       "digits1 r2 = Some (b, r3)" "lit CHR ''-'' r3 = Some r4" "any1 r4 = Some t"
    by (auto simp: minorVersionRegex_def split: option.splits if_splits)
  have t: "r4 = t" "t \<noteq> []" "CHR 0x0A \<notin> set t"
    using s(5) by (auto simp: any1_def split: if_splits)
  have "drop 3 name = a @ ''.'' @ b @ ''-'' @ t"
    using s t(1) by (simp add: digits1_Some lit_Some)
  then show "name = ''php'' @ a @ ''.'' @ b @ ''-'' @ t
     \<and> a \<noteq> [] \<and> list_all is_digit a \<and> b \<noteq> [] \<and> list_all is_digit b
     \<and> t \<noteq> [] \<and> CHR 0x0A \<notin> set t"
    using n s(1,3) t(2,3) by (simp add: digits1_Some)
next
  assume a: "name = ''php'' @ a @ ''.'' @ b @ ''-'' @ t
     \<and> a \<noteq> [] \<and> list_all is_digit a \<and> b \<noteq> [] \<and> list_all is_digit b
     \<and> t \<noteq> [] \<and> CHR 0x0A \<notin> set t"
  have p: "HasPrefix name ''php''" using a by (auto simp: HasPrefix_php)
  have d: "drop 3 name = a @ ''.'' @ b @ ''-'' @ t" using a by simp
  have s1: "digits1 (a @ ''.'' @ b @ ''-'' @ t) = Some (a, ''.'' @ b @ ''-'' @ t)"
    using a not_digit_facts by (simp add: digits1_Some)
  have s2: "digits1 (b @ ''-'' @ t) = Some (b, ''-'' @ t)"
    using a not_digit_facts by (simp add: digits1_Some)
  have s4: "any1 t = Some t" using a by (simp add: any1_def)
  show "minorVersionRegex name = Some (a, b, t)"
    unfolding minorVersionRegex_def d using p s1 s2 s4 by (simp add: lit_def)
qed

text \<open>
  Claim C3. The two examples of a versioned name, with the install slot and the
  canonical name derived from the result, and a name without a version.
\<close>

theorem ParsePackageName_examples:
  "ParsePackageName ''php8.5-cli'' =
     Some \<lparr>MinorVersion = ''8.5'', PatchVersion = [], IsPinned = False, PackageType = ''cli''\<rparr>
   \<and> map_option GetInstallSlot (ParsePackageName ''php8.5-cli'') = Some ''8.5''
   \<and> map_option GetCanonicalName (ParsePackageName ''php8.5-cli'') = Some ''php8.5-cli''
   \<and> ParsePackageName ''php8.5.1-cli'' =
     Some \<lparr>MinorVersion = ''8.5'', PatchVersion = ''8.5.1'', IsPinned = True, PackageType = ''cli''\<rparr>
   \<and> map_option GetInstallSlot (ParsePackageName ''php8.5.1-cli'') = Some ''8.5.1''
   \<and> map_option GetCanonicalName (ParsePackageName ''php8.5.1-cli'') = Some ''php8.5-cli''
   \<and> ParsePackageName ''redis-server'' = None"
  by code_simp

section \<open>Properties of the upgrade check\<close>

lemma mk_installed_fields:
  "Name (mk_installed p fl slot pin) = Name p"
  "Version (mk_installed p fl slot pin) = Version p"
  "Depends (mk_installed p fl slot pin) = Depends p"
  "InstalledFiles (mk_installed p fl slot pin) = fl"
  "InstallSlot (mk_installed p fl slot pin) = slot"
  "Pinned (mk_installed p fl slot pin) = pin"
  by (simp_all add: mk_installed_def Package.defs)

lemma example_fields:
  "Name php_common = ''php8.5-common''" "Name php_cli = ''php8.5-cli''"
  "Name php_redis = ''php8.5-redis''"
  "Version php_common = ''1.0''" "Version php_cli = ''1.0''" "Version php_redis = ''2.0''"
  by (simp_all add: php_common_def php_cli_def php_redis_def mk_package_def)

text \<open>
  Claim C7. \<open>CheckUpgrade\<close> returns the available version when the name is installed,
  not pinned, and the available version compares strictly greater than the installed
  one; in every other case it returns the empty string, in particular for a pinned
  record, whatever the available version, and for a name that is not installed.
\<close>

theorem CheckUpgrade_cases:
  "((\<exists>inst. installed m name = Some inst \<and> \<not> Pinned inst
        \<and> compareVersions availableVersion (Version inst) > 0)
      \<longrightarrow> CheckUpgrade m name availableVersion = availableVersion)
   \<and> (\<not> (\<exists>inst. installed m name = Some inst \<and> \<not> Pinned inst
        \<and> compareVersions availableVersion (Version inst) > 0)
      \<longrightarrow> CheckUpgrade m name availableVersion = [])
   \<and> (\<forall>inst. installed m name = Some inst \<and> Pinned inst
      \<longrightarrow> CheckUpgrade m name availableVersion = [])
   \<and> (installed m name = None \<longrightarrow> CheckUpgrade m name availableVersion = [])"
  by (auto simp: CheckUpgrade_def GetInstalled_def split: option.splits)

theorem CheckUpgrade_cases_witness:
  "CheckUpgrade (manager_with (installed_cli False)) ''php8.5-cli'' ''1.1'' = ''1.1''
   \<and> CheckUpgrade (manager_with (installed_cli True)) ''php8.5-cli'' ''1.1'' = []
   \<and> CheckUpgrade (manager_with (installed_cli True)) ''php8.5-cli'' ''9.9'' = []
   \<and> CheckUpgrade (manager_with (installed_cli False)) ''php8.5-cli'' ''1.0'' = []
   \<and> CheckUpgrade (manager_with (installed_cli False)) ''php8.5-fpm'' ''1.1'' = []"
proof -
  have i1: "installed (manager_with (installed_cli False)) ''php8.5-cli'' = Some (installed_cli False)"
    by (simp add: manager_with_def NewManager_def installed_cli_def mk_installed_fields example_fields)
  have i2: "installed (manager_with (installed_cli True)) ''php8.5-cli'' = Some (installed_cli True)"
    by (simp add: manager_with_def NewManager_def installed_cli_def mk_installed_fields example_fields)
  have i3: "installed (manager_with (installed_cli False)) ''php8.5-fpm'' = None"
    by (simp add: manager_with_def NewManager_def installed_cli_def mk_installed_fields example_fields)
  have p1: "\<not> Pinned (installed_cli False)" "Pinned (installed_cli True)"
    by (simp_all add: installed_cli_def mk_installed_fields)
  have v: "Version (installed_cli False) = ''1.0''"
    by (simp add: installed_cli_def mk_installed_fields example_fields)
  have c1: "compareVersions ''1.1'' ''1.0'' > 0" by code_simp
  have c2: "\<not> compareVersions ''1.0'' ''1.0'' > 0" by code_simp
  show ?thesis
    using CheckUpgrade_cases [of "manager_with (installed_cli False)" "''php8.5-cli''" "''1.1''"]
          CheckUpgrade_cases [of "manager_with (installed_cli True)" "''php8.5-cli''" "''1.1''"]
          CheckUpgrade_cases [of "manager_with (installed_cli True)" "''php8.5-cli''" "''9.9''"]
          CheckUpgrade_cases [of "manager_with (installed_cli False)" "''php8.5-cli''" "''1.0''"]
          CheckUpgrade_cases [of "manager_with (installed_cli False)" "''php8.5-fpm''" "''1.1''"]
          i1 i2 i3 p1 v c1 c2
    by simp
qed

section \<open>Properties of the catalog lookup\<close>

lemma latest_loop_None:
  "latest_loop name None ps = None \<longleftrightarrow> (\<forall>q\<in>set ps. Name q \<noteq> name)"
  and latest_loop_Some_ne: "latest_loop name (Some l) ps \<noteq> None"
proof -
  show s: "latest_loop name (Some l) ps \<noteq> None" for l ps
    by (induction ps arbitrary: l) auto
  show "latest_loop name None ps = None \<longleftrightarrow> (\<forall>q\<in>set ps. Name q \<noteq> name)"
    using s by (induction ps) auto
qed

lemma latest_loop_Some:
  assumes "latest_loop name (Some l) ps = Some p"
    and "done = pre @ l # mid" "Name l = name"
    and "\<forall>q\<in>set pre. Name q = name \<longrightarrow> compareVersions (Version q) (Version l) = - 1"
    and "\<forall>q\<in>set mid. Name q = name \<longrightarrow> compareVersions (Version q) (Version l) \<le> 0"
  shows "\<exists>pre' post. done @ ps = pre' @ p # post \<and> Name p = name
           \<and> (\<forall>q\<in>set pre'. Name q = name \<longrightarrow> compareVersions (Version q) (Version p) = - 1)
           \<and> (\<forall>q\<in>set post. Name q = name \<longrightarrow> compareVersions (Version q) (Version p) \<le> 0)"
  using assms
proof (induction ps arbitrary: l "done" pre mid)
  case Nil
  then show ?case by auto
next
  case (Cons x ps)
  show ?case
  proof (cases "Name x = name \<and> compareVersions (Version x) (Version l) > 0")
    case True
    then have run: "latest_loop name (Some x) ps = Some p" using Cons.prems(1) by simp
    have lt: "compareVersions (Version l) (Version x) = - 1"
      using True compareVersions_flip[of "Version x" "Version l"] compareVersions_range[of "Version l" "Version x"] by auto
    have before: "\<forall>q\<in>set (pre @ l # mid). Name q = name \<longrightarrow> compareVersions (Version q) (Version x) = - 1"
    proof (intro ballI impI)
      fix q assume q: "q \<in> set (pre @ l # mid)" "Name q = name"
      have "compareVersions (Version q) (Version l) \<le> 0"
      proof -
        from q(1) consider "q \<in> set pre" | "q = l" | "q \<in> set mid" by auto
        then show ?thesis
        proof cases
          case 1 then show ?thesis using Cons.prems(4) q(2) by simp
        next
          case 2 then show ?thesis using compareVersions_eq_iff[of "Version l" "Version l"] by simp
        next
          case 3 then show ?thesis using Cons.prems(5) q(2) by simp
        qed
      qed
      then show "compareVersions (Version q) (Version x) = - 1"
        using lt by (rule compareVersions_le_less_trans)
    qed
    have "\<exists>pre' post. (done @ [x]) @ ps = pre' @ p # post \<and> Name p = name
           \<and> (\<forall>q\<in>set pre'. Name q = name \<longrightarrow> compareVersions (Version q) (Version p) = - 1)
           \<and> (\<forall>q\<in>set post. Name q = name \<longrightarrow> compareVersions (Version q) (Version p) \<le> 0)"
      using Cons.IH[OF run, of "done @ [x]" "done" "[]"] True before Cons.prems(2) by simp
    then show ?thesis by simp
  next
    case False
    then have run: "latest_loop name (Some l) ps = Some p" using Cons.prems(1)
      by (auto split: if_splits)
    have xle: "Name x = name \<longrightarrow> compareVersions (Version x) (Version l) \<le> 0" using False by auto
    have "\<exists>pre' post. (done @ [x]) @ ps = pre' @ p # post \<and> Name p = name
           \<and> (\<forall>q\<in>set pre'. Name q = name \<longrightarrow> compareVersions (Version q) (Version p) = - 1)
           \<and> (\<forall>q\<in>set post. Name q = name \<longrightarrow> compareVersions (Version q) (Version p) \<le> 0)"
      using Cons.IH[OF run, of "done @ [x]" pre "mid @ [x]"] Cons.prems(2,3,4,5) xle by auto
    then show ?thesis by simp
  qed
qed

lemma latest_loop_first:
  assumes "latest_loop name None ps = Some p"
  shows "\<exists>pre post. ps = pre @ p # post \<and> Name p = name
           \<and> (\<forall>q\<in>set pre. Name q = name \<longrightarrow> compareVersions (Version q) (Version p) = - 1)
           \<and> (\<forall>q\<in>set post. Name q = name \<longrightarrow> compareVersions (Version q) (Version p) \<le> 0)"
  using assms
proof (induction ps)
  case Nil
  then show ?case by simp
next
  case (Cons x ps)
  show ?case
  proof (cases "Name x = name")
    case True
    then have "latest_loop name (Some x) ps = Some p" using Cons.prems by simp
    from latest_loop_Some[OF this, of "[x]" "[]" "[]"] True show ?thesis by simp
  next
    case False
    then have "latest_loop name None ps = Some p" using Cons.prems by simp
    from Cons.IH[OF this] obtain pre post where
      h: "ps = pre @ p # post" "Name p = name"
         "\<forall>q\<in>set pre. Name q = name \<longrightarrow> compareVersions (Version q) (Version p) = - 1"
         "\<forall>q\<in>set post. Name q = name \<longrightarrow> compareVersions (Version q) (Version p) \<le> 0"
      by blast
    have "x # ps = (x # pre) @ p # post" using h(1) by simp
    moreover have "\<forall>q\<in>set (x # pre). Name q = name \<longrightarrow> compareVersions (Version q) (Version p) = - 1"
      using h(3) False by simp
    ultimately show ?thesis using h(2,4) by blast
  qed
qed

text \<open>
  Claim C8, as the code has it. \<open>GetPackage\<close> returns nothing exactly when no entry of
  the platform has the name. Otherwise it returns an entry with the name whose version
  no other entry with the name exceeds, and the first such entry of the list: every
  earlier entry with the name has a strictly lower version. The revision is not looked
  at.
\<close>

theorem GetPackage_first_highest_version:
  "(GetPackage r name = None \<longleftrightarrow> (\<forall>q\<in>set (GetPackages r). Name q \<noteq> name))
   \<and> (\<forall>p. GetPackage r name = Some p \<longrightarrow>
        (\<exists>pre post. GetPackages r = pre @ p # post \<and> Name p = name
           \<and> (\<forall>q\<in>set pre. Name q = name \<longrightarrow> compareVersions (Version q) (Version p) = - 1)
           \<and> (\<forall>q\<in>set post. Name q = name \<longrightarrow> compareVersions (Version q) (Version p) \<le> 0)))"
  unfolding GetPackage_def using latest_loop_None latest_loop_first by blast

theorem GetPackage_first_highest_version_witness:
  "GetPackage revisions_repo ''php8.5-cli'' = Some (cli_revision ''1.1'' 1)
   \<and> (\<exists>pre post. GetPackages revisions_repo = pre @ cli_revision ''1.1'' 1 # post
        \<and> (\<forall>q\<in>set pre. Name q = ''php8.5-cli'' \<longrightarrow>
              compareVersions (Version q) (Version (cli_revision ''1.1'' 1)) = - 1))"
proof -
  have h: "GetPackage revisions_repo ''php8.5-cli'' = Some (cli_revision ''1.1'' 1)"
    by code_simp
  show ?thesis
    using GetPackage_first_highest_version [of revisions_repo "''php8.5-cli''"] h by blast
qed

text \<open>
  The claim as stated fails where two entries share the highest version: the catalog
  lists revision 1 before revision 2 of version 1.1, and the lookup returns revision 1.
\<close>

theorem GetPackage_revision_counterexample:
  "GetPackages revisions_repo
     = [cli_revision ''1.0'' 3, cli_revision ''1.1'' 1, cli_revision ''1.1'' 2]
   \<and> GetPackage revisions_repo ''php8.5-cli'' = Some (cli_revision ''1.1'' 1)
   \<and> Revision (cli_revision ''1.1'' 1) < Revision (cli_revision ''1.1'' 2)
   \<and> GetPackage revisions_repo ''php8.5-cli'' \<noteq> Some (cli_revision ''1.1'' 2)"
  by code_simp

section \<open>Properties of the dependency resolution\<close>

lemma fuel_step:
  "resolve n m a st p = Some r \<Longrightarrow> resolve (Suc n) m a st p = Some r"
  "resolve_deps n m a st ds = Some r \<Longrightarrow> resolve_deps (Suc n) m a st ds = Some r"
proof (induction n m a st p and n m a st ds arbitrary: r and r rule: resolve_resolve_deps.induct)
  case (1 m available st p)
  then show ?case by simp
next
  case (2 n m available st p)
  then show ?case
    by (auto split: option.splits sum.splits if_splits)
next
  case (3 n m available st)
  then show ?case by simp
next
  case (4 n m available st depStr rest)
  show ?case
  proof (cases "dep_satisfied m (ParseDependency depStr)")
    case True
    then show ?thesis using "4.IH" "4.prems" by (simp add: Let_def)
  next
    case False
    show ?thesis
    proof (cases "find_available available (DepName (ParseDependency depStr))")
      case None
      then show ?thesis using "4.prems" False by (simp add: Let_def)
    next
      case (Some q)
      show ?thesis
      proof (cases "resolve n m available st q")
        case None
        then show ?thesis using "4.prems" False Some by (simp add: Let_def)
      next
        case (Some x)
        note rq = this
        have up: "resolve (Suc n) m available st q = Some x"
          using "4.IH"(2)[OF refl False \<open>find_available available (DepName (ParseDependency depStr)) = Some q\<close> rq] .
        show ?thesis
        proof (cases x)
          case (Inl e)
          then show ?thesis using "4.prems" False \<open>find_available available (DepName (ParseDependency depStr)) = Some q\<close> rq up
            by (auto simp add: Let_def simp del: resolve.simps)
        next
          case (Inr st')
          have "resolve_deps n m available st' rest = Some r"
            using "4.prems" False \<open>find_available available (DepName (ParseDependency depStr)) = Some q\<close> rq Inr
            by (auto simp add: Let_def simp del: resolve.simps)
          then have "resolve_deps (Suc n) m available st' rest = Some r"
            using "4.IH"(3)[OF refl False \<open>find_available available (DepName (ParseDependency depStr)) = Some q\<close> rq[unfolded Inr]] by simp
          then show ?thesis
            using False \<open>find_available available (DepName (ParseDependency depStr)) = Some q\<close> up Inr
            by (auto simp add: Let_def simp del: resolve.simps)
        qed
      qed
    qed
  qed
qed

lemma fuel_mono:
  assumes "n \<le> n'"
  shows "resolve n m a st p = Some r \<Longrightarrow> resolve n' m a st p = Some r"
    and "resolve_deps n m a st ds = Some r' \<Longrightarrow> resolve_deps n' m a st ds = Some r'"
proof -
  from assms obtain k where k: "n' = n + k" using le_Suc_ex by blast
  show "resolve n m a st p = Some r \<Longrightarrow> resolve n' m a st p = Some r"
    unfolding k by (induction k) (auto dest: fuel_step(1) simp del: resolve.simps)
  show "resolve_deps n m a st ds = Some r' \<Longrightarrow> resolve_deps n' m a st ds = Some r'"
    unfolding k by (induction k) (auto dest: fuel_step(2) simp del: resolve.simps resolve_deps.simps)
qed

lemma dep_target_cases:
  "dep_target m a d = [] \<or> (\<exists>q. dep_target m a d = [q] \<and> \<not> dep_satisfied m (ParseDependency d)
      \<and> find_available a (DepName (ParseDependency d)) = Some q)"
  by (auto simp: dep_target_def Let_def split: option.splits)

lemma find_available_Some:
  "find_available a name = Some q \<Longrightarrow> q \<in> set a \<and> Name q = name"
  by (auto simp: find_available_def find_Some_iff)

lemma dep_targets_first:
  assumes "q \<in> set (dep_targets m a p)"
  shows "find_available a (Name q) = Some q"
proof -
  from assms obtain d where "q \<in> set (dep_target m a d)" by (auto simp: dep_targets_def)
  then have f: "find_available a (DepName (ParseDependency d)) = Some q"
    using dep_target_cases[of m a d] by auto
  then have "Name q = DepName (ParseDependency d)" by (simp add: find_available_Some)
  then show ?thesis using f by simp
qed

lemma dep_targets_in_catalog: "q \<in> set (dep_targets m a p) \<Longrightarrow> q \<in> set a"
  using dep_targets_first find_available_Some by blast

lemma reachable_self: "p \<in> reachable m a p"
  by (simp add: reachable_def)

lemma reachable_step:
  "q \<in> set (dep_targets m a p) \<Longrightarrow> x \<in> reachable m a q \<Longrightarrow> x \<in> reachable m a p"
  unfolding reachable_def dep_edges_def by (auto intro: rtrancl_into_rtrancl)

lemma reachable_unfold:
  "reachable m a p = insert p (\<Union>q\<in>set (dep_targets m a p). reachable m a q)"
proof
  show "reachable m a p \<subseteq> insert p (\<Union>q\<in>set (dep_targets m a p). reachable m a q)"
  proof
    fix x assume "x \<in> reachable m a p"
    then have "(x, p) \<in> (dep_edges m a)\<^sup>*" by (simp add: reachable_def)
    then show "x \<in> insert p (\<Union>q\<in>set (dep_targets m a p). reachable m a q)"
    proof (cases rule: rtrancl.cases)
      case rtrancl_refl
      then show ?thesis by simp
    next
      case (rtrancl_into_rtrancl b)
      then have "b \<in> set (dep_targets m a p)" by (simp add: dep_edges_def)
      moreover have "x \<in> reachable m a b" using rtrancl_into_rtrancl by (simp add: reachable_def)
      ultimately show ?thesis by blast
    qed
  qed
  show "insert p (\<Union>q\<in>set (dep_targets m a p). reachable m a q) \<subseteq> reachable m a p"
    using reachable_self reachable_step by fast
qed

lemma reachable_trans:
  "q \<in> reachable m a p \<Longrightarrow> p \<in> reachable m a t \<Longrightarrow> q \<in> reachable m a t"
  unfolding reachable_def by auto

lemma topo_snoc:
  "topo m a (rs @ [p]) \<longleftrightarrow> topo m a rs \<and> set (dep_targets m a p) \<subseteq> set rs"
proof
  assume t: "topo m a (rs @ [p])"
  have "topo m a rs" unfolding topo_def
  proof (intro allI impI)
    fix i assume i: "i < length rs"
    then have "set (dep_targets m a ((rs @ [p]) ! i)) \<subseteq> set (take i (rs @ [p]))"
      using t by (simp add: topo_def)
    then show "set (dep_targets m a (rs ! i)) \<subseteq> set (take i rs)"
      using i by (simp add: nth_append)
  qed
  moreover have "set (dep_targets m a p) \<subseteq> set rs"
    using t[unfolded topo_def, rule_format, of "length rs"] by simp
  ultimately show "topo m a rs \<and> set (dep_targets m a p) \<subseteq> set rs" by simp
next
  assume h: "topo m a rs \<and> set (dep_targets m a p) \<subseteq> set rs"
  show "topo m a (rs @ [p])" unfolding topo_def
  proof (intro allI impI)
    fix i assume i: "i < length (rs @ [p])"
    show "set (dep_targets m a ((rs @ [p]) ! i)) \<subseteq> set (take i (rs @ [p]))"
    proof (cases "i < length rs")
      case True
      then show ?thesis using h by (simp add: topo_def nth_append)
    next
      case False
      then have "i = length rs" using i by simp
      then show ?thesis using h by simp
    qed
  qed
qed

lemma topo_closed:
  assumes "topo m a rs" "p \<in> set rs"
  shows "set (dep_targets m a p) \<subseteq> set rs"
proof -
  from assms(2) obtain i where i: "i < length rs" "rs ! i = p" by (auto simp: in_set_conv_nth)
  then have "set (dep_targets m a p) \<subseteq> set (take i rs)" using assms(1) by (auto simp: topo_def)
  then show ?thesis using set_take_subset by fast
qed

lemma topo_reachable:
  assumes "topo m a rs" "p \<in> set rs"
  shows "reachable m a p \<subseteq> set rs"
proof
  fix x assume "x \<in> reachable m a p"
  then have "(x, p) \<in> (dep_edges m a)\<^sup>*" by (simp add: reachable_def)
  then show "x \<in> set rs" using assms(2)
  proof (induction rule: converse_rtrancl_induct)
    case base
    then show ?case by simp
  next
    case (step y z)
    then have "z \<in> set rs" by simp
    moreover have "y \<in> set (dep_targets m a z)" using step(1) by (simp add: dep_edges_def)
    ultimately show ?case using topo_closed[OF assms(1)] by blast
  qed
qed

lemma topo_precedes:
  assumes "topo m a rs" "p \<in> set rs" "q \<in> set (dep_targets m a p)"
  shows "precedes q p rs"
proof -
  from assms(2) obtain j where j: "j < length rs" "rs ! j = p" by (auto simp: in_set_conv_nth)
  then have "q \<in> set (take j rs)" using assms(1,3) by (auto simp: topo_def)
  then obtain i where "i < length (take j rs)" "take j rs ! i = q" by (auto simp: in_set_conv_nth)
  then have "i < j" "rs ! i = q" using j(1) by auto
  then show ?thesis unfolding precedes_def using j by blast
qed

lemma reachable_kid:
  "q \<in> set (dep_targets m a p) \<Longrightarrow> p \<in> reachable m a t \<Longrightarrow> q \<in> reachable m a t"
  unfolding reachable_def dep_edges_def by (auto intro: converse_rtrancl_into_rtrancl)

lemma reachable_in_catalog:
  assumes "p \<in> reachable m a t"
  shows "p = t \<or> p \<in> set a"
proof -
  from assms have "(p, t) \<in> (dep_edges m a)\<^sup>*" by (simp add: reachable_def)
  then show ?thesis
  proof (cases rule: converse_rtranclE)
    case base
    then show ?thesis by simp
  next
    case (step y)
    then have "p \<in> set (dep_targets m a y)" by (simp add: dep_edges_def)
    then show ?thesis using dep_targets_in_catalog by blast
  qed
qed

lemma resolve_deps_ok:
  assumes "\<forall>d\<in>set ds. dep_missing m a d = []"
    and "\<forall>q\<in>set (concat (map (dep_target m a) ds)). node_ok m a q"
    and "good_state m a st"
  shows "\<exists>n st'. resolve_deps n m a st ds = Some (Inr st') \<and> good_state m a st'
           \<and> set (result st') =
               set (result st) \<union> (\<Union>q\<in>set (concat (map (dep_target m a) ds)). reachable m a q)"
  using assms
proof (induction ds arbitrary: st)
  case Nil
  then show ?case by auto
next
  case (Cons d ds)
  show ?case
  proof (cases "dep_satisfied m (ParseDependency d)")
    case True
    then have t: "dep_target m a d = []" by (simp add: dep_target_def)
    from Cons.IH[of st] Cons.prems t obtain n st' where
      r: "resolve_deps n m a st ds = Some (Inr st')" "good_state m a st'"
         "set (result st') = set (result st) \<union> (\<Union>q\<in>set (concat (map (dep_target m a) ds)). reachable m a q)"
      by auto
    have "resolve_deps n m a st (d # ds) = Some (Inr st')" using True r(1) by (simp add: Let_def)
    then show ?thesis using r(2,3) t by auto
  next
    case False
    have "dep_missing m a d = []" using Cons.prems(1) by simp
    then obtain q where q: "find_available a (DepName (ParseDependency d)) = Some q"
      using False by (auto simp: dep_missing_def Let_def split: option.splits)
    then have t: "dep_target m a d = [q]" using False by (simp add: dep_target_def)
    then have "node_ok m a q" using Cons.prems(2) by simp
    then obtain n1 st1 where
      r1: "resolve n1 m a st q = Some (Inr st1)" "good_state m a st1"
          "set (result st1) = set (result st) \<union> reachable m a q"
      using Cons.prems(3) unfolding node_ok_def by blast
    from Cons.IH[of st1] Cons.prems(1,2) r1(2) obtain n2 st2 where
      r2: "resolve_deps n2 m a st1 ds = Some (Inr st2)" "good_state m a st2"
         "set (result st2) = set (result st1) \<union> (\<Union>q\<in>set (concat (map (dep_target m a) ds)). reachable m a q)"
      by auto
    define n where "n = max n1 n2"
    have a1: "resolve n m a st q = Some (Inr st1)"
      using fuel_mono(1)[OF _ r1(1), of n] by (simp add: n_def)
    have a2: "resolve_deps n m a st1 ds = Some (Inr st2)"
      using fuel_mono(2)[OF _ r2(1), of n] by (simp add: n_def)
    have "resolve_deps n m a st (d # ds) = Some (Inr st2)"
      using False q a1 a2 by (simp add: Let_def del: resolve.simps)
    moreover have "set (result st2) =
        set (result st) \<union> (\<Union>q\<in>set (concat (map (dep_target m a) (d # ds))). reachable m a q)"
      using r1(3) r2(3) t by auto
    ultimately show ?thesis using r2(2) by blast
  qed
qed

lemma resolve_after_deps:
  assumes good: "good_state m a st" and fresh: "Name p \<notin> resolved st"
    and miss: "missing_deps m a p = []"
    and kids: "\<forall>q\<in>set (dep_targets m a p). node_ok m a q"
    and acyc: "(p, p) \<notin> (dep_edges m a)\<^sup>+"
  shows "\<exists>n st'. resolve n m a st p = Some (Inr st')
           \<and> resolved st' = Name ` set (result st')
           \<and> (\<forall>q\<in>set (result st') - {p}. find_available a (Name q) = Some q)
           \<and> distinct (result st') \<and> topo m a (result st')
           \<and> set (result st') = set (result st) \<union> reachable m a p"
proof -
  have m': "\<forall>d\<in>set (Depends p). dep_missing m a d = []"
    using miss by (simp add: missing_deps_def)
  from resolve_deps_ok[OF m' kids[unfolded dep_targets_def] good] obtain n st1 where
    r: "resolve_deps n m a st (Depends p) = Some (Inr st1)" "good_state m a st1"
       "set (result st1) = set (result st) \<union> (\<Union>q\<in>set (dep_targets m a p). reachable m a q)"
    by (auto simp: dep_targets_def)
  define st' where "st' = st1\<lparr>resolved := insert (Name p) (resolved st1), result := result st1 @ [p]\<rparr>"
  have run: "resolve (Suc n) m a st p = Some (Inr st')"
    using fresh r(1) by (simp add: st'_def)
  have p_old: "p \<notin> set (result st)" using fresh good by (auto simp: good_state_def)
  have p_new: "p \<notin> (\<Union>q\<in>set (dep_targets m a p). reachable m a q)"
  proof
    assume "p \<in> (\<Union>q\<in>set (dep_targets m a p). reachable m a q)"
    then obtain q where q: "q \<in> set (dep_targets m a p)" "(p, q) \<in> (dep_edges m a)\<^sup>*"
      by (auto simp: reachable_def)
    have e: "(q, p) \<in> dep_edges m a" using q(1) by (simp add: dep_edges_def)
    have "(p, p) \<in> (dep_edges m a)\<^sup>+" using q(2) e by (rule rtrancl_into_trancl1)
    then show False using acyc by simp
  qed
  have notin: "p \<notin> set (result st1)" using p_old p_new r(3) by simp
  have k: "set (dep_targets m a p) \<subseteq> set (result st1)"
    using r(3) reachable_self by fast
  have "resolved st' = Name ` set (result st')" using r(2) by (simp add: st'_def good_state_def)
  moreover have "\<forall>q\<in>set (result st') - {p}. find_available a (Name q) = Some q"
    using r(2) by (simp add: st'_def good_state_def)
  moreover have "distinct (result st')" using r(2) notin by (simp add: st'_def good_state_def)
  moreover have "topo m a (result st')" using r(2) k by (simp add: st'_def good_state_def topo_snoc)
  moreover have "set (result st') = set (result st) \<union> reachable m a p"
    using r(3) reachable_unfold[of m a p] by (auto simp: st'_def)
  ultimately show ?thesis using run by blast
qed

lemma node_ok_reachable:
  assumes wf: "wf {(q, p). p \<in> reachable m a t \<and> q \<in> set (dep_targets m a p)}"
    and miss: "\<forall>p\<in>reachable m a t. missing_deps m a p = []"
    and acyc: "\<forall>p\<in>reachable m a t. (p, p) \<notin> (dep_edges m a)\<^sup>+"
  shows "p \<in> reachable m a t \<Longrightarrow> find_available a (Name p) = Some p \<Longrightarrow> node_ok m a p"
  using wf
proof (induction p rule: wf_induct_rule)
  case (less p)
  have kids: "\<forall>q\<in>set (dep_targets m a p). node_ok m a q"
  proof
    fix q assume q: "q \<in> set (dep_targets m a p)"
    have "q \<in> reachable m a t" using q less.prems(1) by (rule reachable_kid)
    moreover have "find_available a (Name q) = Some q" using q by (rule dep_targets_first)
    ultimately show "node_ok m a q" using less.IH[of q] q less.prems(1) by simp
  qed
  show ?case unfolding node_ok_def
  proof (intro allI impI)
    fix st assume good: "good_state m a st"
    show "\<exists>n st'. resolve n m a st p = Some (Inr st') \<and> good_state m a st'
           \<and> set (result st') = set (result st) \<union> reachable m a p"
    proof (cases "Name p \<in> resolved st")
      case True
      then obtain r where r: "r \<in> set (result st)" "Name r = Name p"
        using good by (auto simp: good_state_def)
      have "find_available a (Name r) = Some r" using r(1) good by (auto simp: good_state_def)
      then have "r = p" using r(2) less.prems(2) by simp
      then have "reachable m a p \<subseteq> set (result st)"
        using topo_reachable[of m a "result st" p] good r(1) by (simp add: good_state_def)
      moreover have "resolve 1 m a st p = Some (Inr st)" using True by simp
      ultimately show ?thesis using good by blast
    next
      case False
      from resolve_after_deps[OF good False _ kids] miss acyc less.prems(1)
      obtain n st' where
        r: "resolve n m a st p = Some (Inr st')" "resolved st' = Name ` set (result st')"
           "\<forall>q\<in>set (result st') - {p}. find_available a (Name q) = Some q"
           "distinct (result st')" "topo m a (result st')"
           "set (result st') = set (result st) \<union> reachable m a p"
        by blast
      have "good_state m a st'" unfolding good_state_def using r(2-5) less.prems(2) by auto
      then show ?thesis using r(1,6) by blast
    qed
  qed
qed

lemma wf_reachable_edges:
  assumes acyc: "\<forall>p\<in>reachable m a t. (p, p) \<notin> (dep_edges m a)\<^sup>+"
  shows "wf {(q, p). p \<in> reachable m a t \<and> q \<in> set (dep_targets m a p)}"
proof (rule finite_acyclic_wf)
  have "{(q, p). p \<in> reachable m a t \<and> q \<in> set (dep_targets m a p)} \<subseteq> set a \<times> insert t (set a)"
  proof
    fix x assume x: "x \<in> {(q, p). p \<in> reachable m a t \<and> q \<in> set (dep_targets m a p)}"
    obtain q p where qp: "x = (q, p)" by (cases x)
    have "q \<in> set a" using x qp dep_targets_in_catalog by auto
    moreover have "p \<in> insert t (set a)"
      using x qp reachable_in_catalog[of p m a t] by auto
    ultimately show "x \<in> set a \<times> insert t (set a)" using qp by simp
  qed
  then show "finite {(q, p). p \<in> reachable m a t \<and> q \<in> set (dep_targets m a p)}"
    by (rule finite_subset) simp
next
  let ?E = "{(q, p). p \<in> reachable m a t \<and> q \<in> set (dep_targets m a p)}"
  have sub: "?E \<subseteq> dep_edges m a" by (auto simp: dep_edges_def)
  show "acyclic ?E" unfolding acyclic_def
  proof (intro allI notI)
    fix x assume c: "(x, x) \<in> ?E\<^sup>+"
    then have "(x, x) \<in> (dep_edges m a)\<^sup>+" using trancl_mono[OF _ sub] by blast
    moreover have "x \<in> reachable m a t" using c by (cases rule: tranclE) auto
    ultimately show False using acyc by blast
  qed
qed

lemma resolve_acyclic_catalog:
  assumes acyc: "\<forall>p\<in>reachable m available target. (p, p) \<notin> (dep_edges m available)\<^sup>+"
    and miss: "\<forall>p\<in>reachable m available target. missing_deps m available p = []"
  shows "\<exists>N rs. (\<forall>n\<ge>N. ResolveDependencies n m target available = Some (Inr rs))
           \<and> distinct rs \<and> set rs = reachable m available target
           \<and> (\<forall>p\<in>set rs. \<forall>q\<in>set (dep_targets m available p). precedes q p rs)"
proof -
  let ?st0 = "\<lparr>resolved = {}, result = []\<rparr>"
  have good0: "good_state m available ?st0" by (simp add: good_state_def topo_def)
  have wf: "wf {(q, p). p \<in> reachable m available target \<and> q \<in> set (dep_targets m available p)}"
    using acyc by (rule wf_reachable_edges)
  have kids: "\<forall>q\<in>set (dep_targets m available target). node_ok m available q"
  proof
    fix q assume q: "q \<in> set (dep_targets m available target)"
    have "q \<in> reachable m available target" using q reachable_self by (rule reachable_kid)
    then show "node_ok m available q"
      using node_ok_reachable[OF wf miss acyc] dep_targets_first[OF q] by blast
  qed
  have t: "target \<in> reachable m available target" by (rule reachable_self)
  from resolve_after_deps[OF good0 _ _ kids] miss acyc t
  obtain N st' where
    r: "resolve N m available ?st0 target = Some (Inr st')"
       "distinct (result st')" "topo m available (result st')"
       "set (result st') = set (result ?st0) \<union> reachable m available target"
    by auto
  have "\<forall>n\<ge>N. ResolveDependencies n m target available = Some (Inr (result st'))"
    using fuel_mono(1)[OF _ r(1)] by (simp add: ResolveDependencies_def del: resolve.simps)
  moreover have "\<forall>p\<in>set (result st'). \<forall>q\<in>set (dep_targets m available p). precedes q p (result st')"
    using topo_precedes[OF r(3)] by blast
  ultimately show ?thesis using r(2,4) by (intro exI[of _ N] exI[of _ "result st'"]) simp
qed

lemma scenario_run:
  "ResolveDependencies 3 (NewManager prefix dir) php_redis scenario_catalog
     = Some (Inr [php_common, php_cli, php_redis])"
  by code_simp

lemma ResolveDependencies_mono:
  assumes "ResolveDependencies n m p a = Some r" "n \<le> n'"
  shows "ResolveDependencies n' m p a = Some r"
proof -
  from assms(1) obtain x where x: "resolve n m a \<lparr>resolved = {}, result = []\<rparr> p = Some x"
    by (auto simp: ResolveDependencies_def split: option.splits simp del: resolve.simps)
  then have "resolve n' m a \<lparr>resolved = {}, result = []\<rparr> p = Some x"
    using fuel_mono(1)[OF assms(2)] by blast
  then show ?thesis using assms(1) x by (simp add: ResolveDependencies_def del: resolve.simps)
qed

lemma self_cycle:
  assumes "(p, p) \<in> (dep_edges m a)\<^sup>+"
  shows "\<exists>q\<in>set (dep_targets m a p). p \<in> reachable m a q"
proof -
  from assms obtain q where "(p, q) \<in> (dep_edges m a)\<^sup>*" "(q, p) \<in> dep_edges m a"
    by (auto dest: tranclD2)
  then show ?thesis by (auto simp: reachable_def dep_edges_def)
qed

lemma scenario_targets:
  "dep_targets (NewManager prefix dir) scenario_catalog php_common = []"
  "dep_targets (NewManager prefix dir) scenario_catalog php_cli = [php_common]"
  "dep_targets (NewManager prefix dir) scenario_catalog php_redis = [php_cli]"
  "missing_deps (NewManager prefix dir) scenario_catalog php_common = []"
  "missing_deps (NewManager prefix dir) scenario_catalog php_cli = []"
  "missing_deps (NewManager prefix dir) scenario_catalog php_redis = []"
  by code_simp+

lemma scenario_reachable:
  "reachable (NewManager prefix dir) scenario_catalog php_common = {php_common}"
  "reachable (NewManager prefix dir) scenario_catalog php_cli = {php_cli, php_common}"
  "reachable (NewManager prefix dir) scenario_catalog php_redis = {php_redis, php_cli, php_common}"
proof -
  show a: "reachable (NewManager prefix dir) scenario_catalog php_common = {php_common}"
    by (subst reachable_unfold) (simp add: scenario_targets)
  show b: "reachable (NewManager prefix dir) scenario_catalog php_cli = {php_cli, php_common}"
    by (subst reachable_unfold) (simp add: scenario_targets a)
  show "reachable (NewManager prefix dir) scenario_catalog php_redis = {php_redis, php_cli, php_common}"
    by (subst reachable_unfold) (simp add: scenario_targets b)
qed

lemma scenario_distinct: "php_common \<noteq> php_cli" "php_cli \<noteq> php_redis" "php_common \<noteq> php_redis"
  by (simp_all add: php_common_def php_cli_def php_redis_def mk_package_def)

lemma scenario_acyclic:
  "\<forall>p\<in>reachable (NewManager prefix dir) scenario_catalog php_redis.
     (p, p) \<notin> (dep_edges (NewManager prefix dir) scenario_catalog)\<^sup>+"
proof
  fix p assume "p \<in> reachable (NewManager prefix dir) scenario_catalog php_redis"
  then consider "p = php_redis" | "p = php_cli" | "p = php_common"
    by (auto simp: scenario_reachable)
  then show "(p, p) \<notin> (dep_edges (NewManager prefix dir) scenario_catalog)\<^sup>+"
  proof cases
    case 1
    show ?thesis using self_cycle[of p "NewManager prefix dir" scenario_catalog] scenario_distinct
      by (auto simp: 1 scenario_targets scenario_reachable)
  next
    case 2
    show ?thesis using self_cycle[of p "NewManager prefix dir" scenario_catalog] scenario_distinct
      by (auto simp: 2 scenario_targets scenario_reachable)
  next
    case 3
    show ?thesis using self_cycle[of p "NewManager prefix dir" scenario_catalog] scenario_distinct
      by (auto simp: 3 scenario_targets scenario_reachable)
  qed
qed

lemma scenario_present:
  "\<forall>p\<in>reachable (NewManager prefix dir) scenario_catalog php_redis.
     missing_deps (NewManager prefix dir) scenario_catalog p = []"
  by (auto simp: scenario_reachable scenario_targets)







lemma single_dep_added:
  assumes B: "Depends B = [depStr]" and ns: "\<not> dep_satisfied m (ParseDependency depStr)"
    and q: "find_available a (DepName (ParseDependency depStr)) = Some q"
    and run: "ResolveDependencies n m B a = Some (Inr rs)"
  shows "precedes q B rs"
proof -
  let ?st0 = "\<lparr>resolved = {}, result = []\<rparr>"
  from run obtain st where st: "resolve n m a ?st0 B = Some (Inr st)" "rs = result st"
    by (auto simp: ResolveDependencies_def split: option.splits sum.splits simp del: resolve.simps)
  then obtain k where k: "n = Suc k" by (cases n) auto
  from st(1) obtain st1 where st1: "resolve_deps k m a ?st0 [depStr] = Some (Inr st1)"
      "st = st1\<lparr>resolved := insert (Name B) (resolved st1), result := result st1 @ [B]\<rparr>"
    unfolding k using B by (auto split: option.splits sum.splits simp del: resolve_deps.simps)
  from st1(1) have rq: "resolve k m a ?st0 q = Some (Inr st1)"
    using ns q by (auto simp: Let_def split: option.splits sum.splits simp del: resolve.simps)
  then obtain j where j: "k = Suc j" by (cases k) auto
  from rq have "\<exists>xs. result st1 = xs @ [q]"
    unfolding j by (auto split: option.splits sum.splits simp del: resolve_deps.simps)
  then obtain xs where "result st1 = xs @ [q]" by blast
  then have rs: "rs = xs @ [q, B]" using st(2) st1(2) by simp
  have "rs ! length (xs) = q" "rs ! Suc (length (xs)) = B"
    by (simp_all add: rs nth_append)
  moreover have "Suc (length (xs)) < length rs" by (simp add: rs)
  ultimately show ?thesis unfolding precedes_def by blast
qed

text \<open>
  A constraint written without the parentheses is not of the shape; the whole string is
  then the name of the dependency.
\<close>

lemma bare_constraint_is_a_name:
  "ParseDependency ''php8.5-common>=1.0''
     = \<lparr>DepName = ''php8.5-common>=1.0'', Constraint = [], DepVersion = []\<rparr>"
  by code_simp

lemma nothing_installed_targets:
  assumes "installed m = Map.empty"
  shows "set (dep_targets m available p)
           = {q. \<exists>d\<in>set (Depends p).
                   find_available available (DepName (ParseDependency d)) = Some q}"
proof -
  have n: "\<not> dep_satisfied m dep" for dep
    using assms by (simp add: dep_satisfied_def GetInstalled_def)
  have "set (dep_target m available d)
          = {q. find_available available (DepName (ParseDependency d)) = Some q}" for d
    using n by (auto simp: dep_target_def Let_def split: option.splits)
  then show ?thesis by (auto simp: dep_targets_def)
qed

text \<open>
  Claim C1. The graph is the one the resolver walks: an edge leads from a package to the
  catalog entry of each of its dependencies that no installed package satisfies; with
  nothing installed these are the catalog entries of all its dependencies. If no package
  that the target reaches lies on a cycle, and the catalog has an entry for each of
  their dependencies, then with enough depth the resolution returns a list that holds
  every reachable package, each once, every package after the packages it depends on.
  In the scenario, where the dependency on a name with \<open>>= 1.0\<close> is the string
  \<open>name (>= 1.0)\<close>, the list is \<open>php8.5-common\<close>, \<open>php8.5-cli\<close>, \<open>php8.5-redis\<close>.
\<close>

theorem resolve_topological:
  "((\<forall>p\<in>reachable m available target. (p, p) \<notin> (dep_edges m available)\<^sup>+)
      \<and> (\<forall>p\<in>reachable m available target. missing_deps m available p = [])
     \<longrightarrow> (\<exists>N rs. (\<forall>n\<ge>N. ResolveDependencies n m target available = Some (Inr rs))
           \<and> distinct rs \<and> set rs = reachable m available target
           \<and> (\<forall>p\<in>set rs. \<forall>q\<in>set (dep_targets m available p). precedes q p rs)))
   \<and> (installed m = Map.empty \<longrightarrow>
        set (dep_targets m available p)
          = {q. \<exists>d\<in>set (Depends p).
                  find_available available (DepName (ParseDependency d)) = Some q})
   \<and> (\<forall>n\<ge>3. ResolveDependencies n (NewManager prefix dir) php_redis scenario_catalog
                 = Some (Inr [php_common, php_cli, php_redis]))"
proof -
  have "\<forall>n\<ge>3. ResolveDependencies n (NewManager prefix dir) php_redis scenario_catalog
                 = Some (Inr [php_common, php_cli, php_redis])"
    using ResolveDependencies_mono[OF scenario_run] by blast
  then show ?thesis
    using resolve_acyclic_catalog[of m available target] nothing_installed_targets[of m available p]
    by blast
qed

theorem resolve_topological_witness:
  "distinct [php_common, php_cli, php_redis]
   \<and> set [php_common, php_cli, php_redis] = reachable (NewManager [] []) scenario_catalog php_redis
   \<and> precedes php_common php_cli [php_common, php_cli, php_redis]
   \<and> precedes php_cli php_redis [php_common, php_cli, php_redis]"
proof -
  let ?m = "NewManager [] []"
  from resolve_topological [of ?m scenario_catalog php_redis php_redis "[]" "[]"]
       scenario_acyclic [of "[]" "[]"] scenario_present [of "[]" "[]"]
  obtain N rs where
    r: "\<forall>n\<ge>N. ResolveDependencies n ?m php_redis scenario_catalog = Some (Inr rs)"
       "distinct rs" "set rs = reachable ?m scenario_catalog php_redis"
       "\<forall>p\<in>set rs. \<forall>q\<in>set (dep_targets ?m scenario_catalog p). precedes q p rs"
    and s: "\<forall>n\<ge>3. ResolveDependencies n ?m php_redis scenario_catalog
                 = Some (Inr [php_common, php_cli, php_redis])"
    by blast
  have "ResolveDependencies (max N 3) ?m php_redis scenario_catalog = Some (Inr rs)"
    using r(1) by simp
  moreover have "ResolveDependencies (max N 3) ?m php_redis scenario_catalog
                 = Some (Inr [php_common, php_cli, php_redis])"
    using s by simp
  ultimately have rs: "rs = [php_common, php_cli, php_redis]" by simp
  have "precedes php_common php_cli rs" "precedes php_cli php_redis rs"
    using r(4) by (simp_all add: rs scenario_targets)
  then show ?thesis using r(2,3) by (simp add: rs)
qed









section \<open>Properties of installing and removing\<close>

lemma HasPrefix_append: "HasPrefix (p @ s) p"
  by (simp add: HasPrefix_def)

lemma TrimPrefix_append: "TrimPrefix (p @ s) p = s"
  by (simp add: TrimPrefix_def HasPrefix_def)

lemma HasPrefix_trans: "HasPrefix s (p @ q) \<Longrightarrow> HasPrefix s p"
proof -
  assume "HasPrefix s (p @ q)"
  then have "take (length p + length q) s = p @ q" by (simp add: HasPrefix_def)
  then have "take (length p) (take (length p + length q) s) = p" by simp
  then show ?thesis by (simp add: HasPrefix_def min_def)
qed

lemma rewrite_dest_leading:
  assumes "slot \<noteq> []" "src \<noteq> []" "slot \<noteq> src"
  shows "rewrite_dest slot src (''/opt/php/'' @ src @ ''/'' @ rest) = ''/opt/php/'' @ slot @ ''/'' @ rest"
proof -
  have "HasPrefix ((''/opt/php/'' @ src @ ''/'') @ rest) (''/opt/php/'' @ src @ ''/'')"
    by (rule HasPrefix_append)
  moreover have "TrimPrefix ((''/opt/php/'' @ src @ ''/'') @ rest) (''/opt/php/'' @ src @ ''/'') = rest"
    by (rule TrimPrefix_append)
  ultimately show ?thesis using assms by (simp add: rewrite_dest_def Let_def)
qed

lemma rewrite_dest_other:
  "\<not> HasPrefix dest (''/opt/php/'' @ src @ ''/'') \<Longrightarrow> rewrite_dest slot src dest = dest"
  by (simp add: rewrite_dest_def Let_def)

lemma rewrite_dest_outside:
  assumes "\<not> HasPrefix dest ''/opt/php/''"
  shows "rewrite_dest slot src dest = dest"
proof -
  have "\<not> HasPrefix dest (''/opt/php/'' @ (src @ ''/''))"
    using assms HasPrefix_trans by blast
  then show ?thesis using rewrite_dest_other[of dest src slot] by simp
qed

lemma process_manifest:
  assumes "entry_name e = ''pkginfo.json''" "content e = Some data"
    "json_unmarshal ev data (pkgInfo st) = Some p"
  shows "process_entry ev opts st e
           = Inr (st\<lparr>pkgInfo := p, sourceSlot := source_slot (Version p) (sourceSlot st)\<rparr>)"
  using assms by (simp add: process_entry_def)

lemma files_not_manifest: "''files/'' @ rel \<noteq> ''pkginfo.json''"
  by simp

lemma process_file:
  assumes "entry_name e = ''files/'' @ rel" "rel \<noteq> []" "\<not> is_dir e" "content e = Some data"
    "write_ok ev (rewrite_dest (OptInstallSlot opts) (sourceSlot st) (''/'' @ rel))
     \<or> (tmp_write_ok ev (rewrite_dest (OptInstallSlot opts) (sourceSlot st) (''/'' @ rel))
        \<and> sudo_cp_ok ev (rewrite_dest (OptInstallSlot opts) (sourceSlot st) (''/'' @ rel)))"
  shows "\<exists>st'. process_entry ev opts st e = Inr st'
          \<and> installedFiles st' = installedFiles st
               @ [rewrite_dest (OptInstallSlot opts) (sourceSlot st) (''/'' @ rel)]
          \<and> fs st' (rewrite_dest (OptInstallSlot opts) (sourceSlot st) (''/'' @ rel)) \<noteq> None"
proof -
  have n: "entry_name e \<noteq> ''pkginfo.json''" using assms(1) by simp
  have h: "HasPrefix (entry_name e) ''files/''" "TrimPrefix (entry_name e) ''files/'' = rel"
    unfolding assms(1) by (rule HasPrefix_append, rule TrimPrefix_append)
  show ?thesis
    unfolding process_entry_def Let_def h using n h(1) assms(2-5) by auto
qed


















text \<open>
  Claim C5, as the code has it. The source slot is the first two components of the
  version in the manifest, set when the manifest entry is processed. When the caller
  asks for a slot that is not empty and differs from a source slot that is not empty, a
  destination that starts with \<open>/opt/php/\<close>, the source slot and a slash gets the
  requested slot in place of that leading segment, and the rest of the path is kept as
  it is. Every other destination is unchanged: every path without that prefix, in
  particular every path that is not under \<open>/opt/php/\<close>, and every path at all when no
  slot is requested, when the source slot is empty or when the two slots are equal. The
  path so computed is where the file is written and what is recorded.
\<close>

theorem rewrite_dest_leading_segment:
  "(2 \<le> length (Split_dot version) \<longrightarrow>
      source_slot version cur = Split_dot version ! 0 @ ''.'' @ Split_dot version ! 1)
   \<and> (entry_name e = ''pkginfo.json'' \<and> content e = Some data
        \<and> json_unmarshal ev data (pkgInfo st) = Some p \<longrightarrow>
        process_entry ev opts st e
          = Inr (st\<lparr>pkgInfo := p, sourceSlot := source_slot (Version p) (sourceSlot st)\<rparr>))
   \<and> (slot \<noteq> [] \<and> src \<noteq> [] \<and> slot \<noteq> src \<longrightarrow>
        rewrite_dest slot src (''/opt/php/'' @ src @ ''/'' @ rest)
          = ''/opt/php/'' @ slot @ ''/'' @ rest)
   \<and> (\<not> HasPrefix dest (''/opt/php/'' @ src @ ''/'') \<longrightarrow> rewrite_dest slot src dest = dest)
   \<and> (\<not> HasPrefix dest ''/opt/php/'' \<longrightarrow> rewrite_dest slot src dest = dest)
   \<and> (slot = [] \<or> src = [] \<or> slot = src \<longrightarrow> rewrite_dest slot src dest = dest)
   \<and> (entry_name e' = ''files/'' @ rel \<and> rel \<noteq> [] \<and> \<not> is_dir e' \<and> content e' = Some data'
        \<and> (write_ok ev (rewrite_dest (OptInstallSlot opts) (sourceSlot st) (''/'' @ rel))
           \<or> (tmp_write_ok ev (rewrite_dest (OptInstallSlot opts) (sourceSlot st) (''/'' @ rel))
              \<and> sudo_cp_ok ev (rewrite_dest (OptInstallSlot opts) (sourceSlot st) (''/'' @ rel))))
       \<longrightarrow>
        (\<exists>st'. process_entry ev opts st e' = Inr st'
           \<and> installedFiles st' = installedFiles st
                @ [rewrite_dest (OptInstallSlot opts) (sourceSlot st) (''/'' @ rel)]
           \<and> fs st' (rewrite_dest (OptInstallSlot opts) (sourceSlot st) (''/'' @ rel)) \<noteq> None))"
proof -
  have a: "2 \<le> length (Split_dot version) \<longrightarrow>
      source_slot version cur = Split_dot version ! 0 @ ''.'' @ Split_dot version ! 1"
    by (simp add: source_slot_def Let_def)
  have b: "entry_name e' = ''files/'' @ rel \<and> rel \<noteq> [] \<and> \<not> is_dir e' \<and> content e' = Some data'
        \<and> (write_ok ev (rewrite_dest (OptInstallSlot opts) (sourceSlot st) (''/'' @ rel))
           \<or> (tmp_write_ok ev (rewrite_dest (OptInstallSlot opts) (sourceSlot st) (''/'' @ rel))
              \<and> sudo_cp_ok ev (rewrite_dest (OptInstallSlot opts) (sourceSlot st) (''/'' @ rel))))
       \<longrightarrow>
        (\<exists>st'. process_entry ev opts st e' = Inr st'
           \<and> installedFiles st' = installedFiles st
                @ [rewrite_dest (OptInstallSlot opts) (sourceSlot st) (''/'' @ rel)]
           \<and> fs st' (rewrite_dest (OptInstallSlot opts) (sourceSlot st) (''/'' @ rel)) \<noteq> None)"
    using process_file[of e' rel data' ev opts st] by blast
  have c: "slot = [] \<or> src = [] \<or> slot = src \<longrightarrow> rewrite_dest slot src dest = dest"
    by (auto simp: rewrite_dest_def)
  show ?thesis
    using a b c process_manifest[of e data ev st p opts] rewrite_dest_leading[of slot src rest]
          rewrite_dest_other[of dest src slot] rewrite_dest_outside[of dest slot src]
    by blast
qed

theorem rewrite_dest_leading_segment_witness:
  "source_slot ''8.5.0'' [] = ''8.5''
   \<and> rewrite_dest ''8.5.1'' ''8.5'' ''/opt/php/8.5/bin/php'' = ''/opt/php/8.5.1/bin/php''
   \<and> rewrite_dest ''8.5.1'' ''8.5'' ''/opt/php/lib/8.5/php.so'' = ''/opt/php/lib/8.5/php.so''
   \<and> rewrite_dest ''8.5.1'' ''8.5'' ''/usr/local/bin/php'' = ''/usr/local/bin/php''
   \<and> rewrite_dest [] ''8.5'' ''/opt/php/8.5/bin/php'' = ''/opt/php/8.5/bin/php''
   \<and> rewrite_dest ''8.5'' ''8.5'' ''/opt/php/8.5/bin/php'' = ''/opt/php/8.5/bin/php''
   \<and> rewrite_dest ''8.5.1'' [] ''/opt/php//bin/php'' = ''/opt/php//bin/php''"
proof -
  have h1: "2 \<le> length (Split_dot ''8.5.0'')" by simp
  have h2: "Split_dot ''8.5.0'' ! 0 @ ''.'' @ Split_dot ''8.5.0'' ! 1 = ''8.5''" by simp
  have h3: "''8.5.1'' \<noteq> []" "''8.5'' \<noteq> []" "''8.5.1'' \<noteq> ''8.5''" by simp_all
  have h4: "\<not> HasPrefix ''/opt/php/lib/8.5/php.so'' (''/opt/php/'' @ ''8.5'' @ ''/'')"
    by (simp add: HasPrefix_def)
  have h5: "\<not> HasPrefix ''/usr/local/bin/php'' ''/opt/php/''"
    by (simp add: HasPrefix_def)
  have p1: "source_slot ''8.5.0'' [] = ''8.5''"
    using rewrite_dest_leading_segment [where version = "''8.5.0''" and cur = "[]"] h1 h2
    by simp
  have p2: "rewrite_dest ''8.5.1'' ''8.5'' ''/opt/php/8.5/bin/php'' = ''/opt/php/8.5.1/bin/php''"
    using rewrite_dest_leading_segment
            [where slot = "''8.5.1''" and src = "''8.5''" and rest = "''bin/php''"] h3
    by simp
  have p3: "rewrite_dest ''8.5.1'' ''8.5'' ''/opt/php/lib/8.5/php.so'' = ''/opt/php/lib/8.5/php.so''"
    using rewrite_dest_leading_segment
            [where slot = "''8.5.1''" and src = "''8.5''" and dest = "''/opt/php/lib/8.5/php.so''"] h4
    by blast
  have p4: "rewrite_dest ''8.5.1'' ''8.5'' ''/usr/local/bin/php'' = ''/usr/local/bin/php''"
    using rewrite_dest_leading_segment
            [where slot = "''8.5.1''" and src = "''8.5''" and dest = "''/usr/local/bin/php''"] h5
    by blast
  have p5: "rewrite_dest [] ''8.5'' ''/opt/php/8.5/bin/php'' = ''/opt/php/8.5/bin/php''"
    using rewrite_dest_leading_segment
            [where slot = "[]" and src = "''8.5''" and dest = "''/opt/php/8.5/bin/php''"]
    by blast
  have p6: "rewrite_dest ''8.5'' ''8.5'' ''/opt/php/8.5/bin/php'' = ''/opt/php/8.5/bin/php''"
    using rewrite_dest_leading_segment
            [where slot = "''8.5''" and src = "''8.5''" and dest = "''/opt/php/8.5/bin/php''"]
    by blast
  have p7: "rewrite_dest ''8.5.1'' [] ''/opt/php//bin/php'' = ''/opt/php//bin/php''"
    using rewrite_dest_leading_segment
            [where slot = "''8.5.1''" and src = "[]" and dest = "''/opt/php//bin/php''"]
    by blast
  show ?thesis using p1 p2 p3 p4 p5 p6 p7 by simp
qed

text \<open>
  The claim as stated fails for a path with a second segment that equals the source
  slot: the archive of version 8.5.0 is installed into the slot 8.5.1, and the file
  \<open>/opt/php/8.5/lib/8.5/php.so\<close> goes to \<open>/opt/php/8.5.1/lib/8.5/php.so\<close>; rewriting any
  segment under the root would give \<open>/opt/php/8.5.1/lib/8.5.1/php.so\<close>.
\<close>

theorem rewrite_dest_deeper_segment_counterexample:
  "rewrite_dest ''8.5.1'' ''8.5'' ''/opt/php/8.5/lib/8.5/php.so''
     = ''/opt/php/8.5.1/lib/8.5/php.so''
   \<and> spec_rewrite_dest ''8.5.1'' ''8.5'' ''/opt/php/8.5/lib/8.5/php.so''
     = ''/opt/php/8.5.1/lib/8.5.1/php.so''
   \<and> fst (InstallWithOptions manager0 env_ok empty_world cli_archive pinned_options)
     = Inr installed_pinned_cli
   \<and> InstalledFiles installed_pinned_cli
     = [''/opt/php/8.5.1/bin/php'', ''/opt/php/8.5.1/lib/8.5/php.so'']"
  by code_simp







end
